theory Spec2Isabelle
  imports Main "HOL-Library.Multiset" "HOL-Library.Product_Lexorder"
begin

section \<open>Python strings\<close>

text \<open>
  A Python \<open>str\<close> is a sequence of code points. It is modelled as a \<open>string\<close>, one
  \<open>char\<close> per code point, which covers the code points below 256. The character
  classes below are the ones of CPython on that range: \<open>str.isspace\<close> (used by
  \<open>str.strip\<close> and by the regular expression class \<open>\s\<close>), the class \<open>\w\<close>, the
  class \<open>\d\<close>, and \<open>str.lower\<close>.
\<close>

definition isspace :: "char \<Rightarrow> bool" where
  "isspace c \<longleftrightarrow>
     (let n = (of_char c :: nat) in (9 \<le> n \<and> n \<le> 13) \<or> (28 \<le> n \<and> n \<le> 32) \<or> n = 133 \<or> n = 160)"

definition isdigit :: "char \<Rightarrow> bool" where
  "isdigit c \<longleftrightarrow> (let n = (of_char c :: nat) in 48 \<le> n \<and> n \<le> 57)"

definition is_word :: "char \<Rightarrow> bool" where
  "is_word c \<longleftrightarrow>
     (let n = (of_char c :: nat) in
        (48 \<le> n \<and> n \<le> 57) \<or> (65 \<le> n \<and> n \<le> 90) \<or> n = 95 \<or> (97 \<le> n \<and> n \<le> 122) \<or>
        n = 170 \<or> n = 178 \<or> n = 179 \<or> n = 181 \<or> n = 185 \<or> n = 186 \<or>
        (188 \<le> n \<and> n \<le> 190) \<or> (192 \<le> n \<and> n \<le> 214) \<or> (216 \<le> n \<and> n \<le> 246) \<or>
        (248 \<le> n \<and> n \<le> 255))"

definition lower_char :: "char \<Rightarrow> char" where
  "lower_char c =
     (let n = (of_char c :: nat) in
        if (65 \<le> n \<and> n \<le> 90) \<or> (192 \<le> n \<and> n \<le> 214) \<or> (216 \<le> n \<and> n \<le> 222)
        then char_of (n + 32) else c)"

definition lower :: "string \<Rightarrow> string" where
  "lower s = map lower_char s"

text \<open>\<open>s.strip()\<close>: whitespace is removed from both ends.\<close>

definition strip :: "string \<Rightarrow> string" where
  "strip s = rev (dropWhile isspace (rev (dropWhile isspace s)))"

text \<open>\<open>s.split('\n')\<close>: the pieces between line feeds; never an empty list.\<close>

fun split_nl :: "string \<Rightarrow> string list" where
  "split_nl [] = [[]]"
| "split_nl (c # cs) =
     (if c = CHR 0x0A then [] # split_nl cs
      else (case split_nl cs of l # ls \<Rightarrow> (c # l) # ls | [] \<Rightarrow> [[c]]))"

text \<open>\<open>'\n'.join(xs)\<close>.\<close>

fun join_nl :: "string list \<Rightarrow> string" where
  "join_nl [] = []"
| "join_nl [l] = l"
| "join_nl (l # ls) = l @ CHR 0x0A # join_nl ls"

text \<open>\<open>line.replace(r'\[', '[')\<close>: every backslash followed by an opening bracket
  loses the backslash, from left to right.\<close>

fun unescape :: "string \<Rightarrow> string" where
  "unescape [] = []"
| "unescape [c] = [c]"
| "unescape (c # d # r) =
     (if c = CHR 0x5C \<and> d = CHR ''['' then CHR ''['' # unescape r else c # unescape (d # r))"

section \<open>The post parser\<close>

datatype error = ValueError | KeyError string

type_synonym post = "string \<rightharpoonup> string"

text \<open>\<open>post[k]\<close> raises \<open>KeyError\<close> on a missing key.\<close>

definition getitem :: "post \<Rightarrow> string \<Rightarrow> error + string" where
  "getitem p k = (case p k of None \<Rightarrow> Inl (KeyError k) | Some v \<Rightarrow> Inr v)"

text \<open>
  \<open>re.match(r'^(?<!\\)\[(\w+)\]$', line)\<close>. At position 0 nothing precedes, so the
  negative lookbehind holds; the line has to begin with the bracket. \<open>\w+\<close> is greedy and
  the closing bracket is no word character, so the name is the longest run of word
  characters. \<open>$\<close> accepts the end of the string, or a single line feed before it.
  The result is group 1.
\<close>

definition section_match :: "string \<Rightarrow> string option" where
  "section_match line =
     (case line of
        [] \<Rightarrow> None
      | c # r \<Rightarrow>
          if c \<noteq> CHR ''['' then None
          else let name = takeWhile is_word r; rest = dropWhile is_word r in
            if name \<noteq> [] \<and> (rest = '']'' \<or> rest = [CHR '']'', CHR 0x0A]) then Some name
            else None)"

text \<open>The \<open>if current_section and section_content:\<close> block that stores a section.\<close>

definition save_section :: "post \<Rightarrow> string option \<Rightarrow> string list \<Rightarrow> post" where
  "save_section p current_section section_content =
     (case current_section of
        None \<Rightarrow> p
      | Some name \<Rightarrow>
          if name \<noteq> [] \<and> section_content \<noteq> []
          then p(lower name \<mapsto> strip (join_nl section_content))
          else p)"

text \<open>One iteration of \<open>for line in lines\<close>, on the state
  \<open>(post, current_section, section_content)\<close>.\<close>

definition parse_line ::
  "string \<Rightarrow> post \<times> string option \<times> string list \<Rightarrow> post \<times> string option \<times> string list" where
  "parse_line line st =
     (case st of (p, current_section, section_content) \<Rightarrow>
        (case section_match line of
           Some name \<Rightarrow> (save_section p current_section section_content, Some name, [])
         | None \<Rightarrow>
             if current_section \<noteq> None \<and> current_section \<noteq> Some []
             then (p, current_section, section_content @ [unescape line])
             else (p, current_section, section_content)))"

fun parse_lines ::
  "string list \<Rightarrow> post \<times> string option \<times> string list \<Rightarrow> post \<times> string option \<times> string list" where
  "parse_lines [] st = st"
| "parse_lines (line # lines) st = parse_lines lines (parse_line line st)"

definition initial_post :: "string \<Rightarrow> post" where
  "initial_post filename =
     [''path'' \<mapsto> ''posts/'' @ filename, ''title'' \<mapsto> [], ''thumbnail'' \<mapsto> [],
      ''content'' \<mapsto> [], ''date'' \<mapsto> [], ''category'' \<mapsto> []]"

text \<open>The post after the loop and the final \<open># Save last section\<close>.\<close>

definition parse_sections :: "string \<Rightarrow> string \<Rightarrow> post" where
  "parse_sections content filename =
     (case parse_lines (split_nl content) (initial_post filename, None, []) of
        (p, current_section, section_content) \<Rightarrow> save_section p current_section section_content)"

subsection \<open>The excerpt\<close>

text \<open>
  \<open><img\s+"[^"]*">\<close> tried at the head of a string: the number of characters matched.
  \<open>\s+\<close> and \<open>[^"]*\<close> are greedy, and giving characters back never helps: the
  character after \<open>\s+\<close> has to be a quote, which is no whitespace, and the character
  after \<open>[^"]*\<close> has to be a quote too.
\<close>

definition img_match :: "string \<Rightarrow> nat option" where
  "img_match s =
     (if take 4 s \<noteq> ''<img'' then None
      else let r = drop 4 s; ws = takeWhile isspace r; r1 = dropWhile isspace r in
        if ws = [] then None
        else (case r1 of
                [] \<Rightarrow> None
              | q # r2 \<Rightarrow>
                  if q \<noteq> CHR 0x22 then None
                  else let u = takeWhile (\<lambda>c. c \<noteq> CHR 0x22) r2;
                           r3 = dropWhile (\<lambda>c. c \<noteq> CHR 0x22) r2 in
                    if take 2 r3 = [CHR 0x22, CHR ''>'']
                    then Some (4 + length ws + 1 + length u + 2)
                    else None))"

text \<open>\<open>re.sub(r'<img\s+"[^"]*">', '', s)\<close>: the leftmost matches, none overlapping, are
  deleted; the scan resumes after each match.\<close>

function remove_imgs :: "string \<Rightarrow> string" where
  "remove_imgs [] = []"
| "remove_imgs (c # cs) =
     (case img_match (c # cs) of
        Some n \<Rightarrow> remove_imgs (drop n (c # cs))
      | None \<Rightarrow> c # remove_imgs cs)"
  by pat_completeness auto

termination
  by (relation "measure length")
     (auto simp: img_match_def Let_def split: if_splits list.splits)

text \<open>\<open><[^>]*>\<close> tried at the head of a string: the number of characters matched.
  The class \<open>[^>]\<close> takes line feeds too.\<close>

definition tag_match :: "string \<Rightarrow> nat option" where
  "tag_match s =
     (case s of
        [] \<Rightarrow> None
      | c # r \<Rightarrow>
          if c \<noteq> CHR ''<'' then None
          else let u = takeWhile (\<lambda>c. c \<noteq> CHR ''>'') r;
                   r1 = dropWhile (\<lambda>c. c \<noteq> CHR ''>'') r in
            if r1 = [] then None else Some (1 + length u + 1))"

text \<open>\<open>re.sub(r'<[^>]*>', '', s)\<close>.\<close>

function strip_tags :: "string \<Rightarrow> string" where
  "strip_tags [] = []"
| "strip_tags (c # cs) =
     (case tag_match (c # cs) of
        Some n \<Rightarrow> strip_tags (drop n (c # cs))
      | None \<Rightarrow> c # strip_tags cs)"
  by pat_completeness auto
termination
  by (relation "measure length")
     (auto simp: tag_match_def Let_def split: if_splits list.splits)

text \<open>The lines under \<open># Generate excerpt\<close>, as a function of \<open>post['content']\<close>.\<close>

definition make_excerpt :: "string \<Rightarrow> string" where
  "make_excerpt content =
     (let content_without_images = remove_imgs content;
          excerpt = strip (take 150 content_without_images);
          excerpt = strip_tags excerpt
      in if length content_without_images > 150 then excerpt @ ''...'' else excerpt)"

text \<open>\<open>parse_post(content, filename)\<close>; \<open>raise ValueError\<close> is \<open>Inl ValueError\<close>.\<close>

definition parse_post :: "string \<Rightarrow> string \<Rightarrow> error + post" where
  "parse_post content filename =
     (let p = parse_sections content filename in
      case getitem p ''content'' of
        Inl e \<Rightarrow> Inl e
      | Inr c \<Rightarrow>
          let p = p(''excerpt'' \<mapsto> make_excerpt c) in
          (case getitem p ''title'' of
             Inl e \<Rightarrow> Inl e
           | Inr title \<Rightarrow>
               if title = [] then Inl ValueError
               else (case getitem p ''date'' of
                       Inl e \<Rightarrow> Inl e
                     | Inr date \<Rightarrow>
                         if date = [] then Inl ValueError
                         else (case getitem p ''category'' of
                                 Inl e \<Rightarrow> Inl e
                               | Inr category \<Rightarrow>
                                   if category = [] then Inl ValueError else Inr p))))"

section \<open>The index builder\<close>

subsection \<open>\<open>datetime.strptime(s, '%m/%d/%Y')\<close>\<close>

text \<open>
  CPython turns the format into the regular expression
  \<open>(?P<m>1[0-2]|0[1-9]|[1-9])/(?P<d>3[0-1]|[1-2]\d|0[1-9]|[1-9]| [1-9])/(?P<Y>\d\d\d\d)\<close>,
  matches it at the head of the string, raises \<open>ValueError\<close> when it does not match
  or when characters remain after the match, and then builds the date, which raises
  \<open>ValueError\<close> for the year 0 and for a day the month does not have. The time of day
  is midnight, so a \<open>datetime\<close> is the triple (year, month, day), compared
  lexicographically.

  The alternatives are tried in order. Whenever an earlier alternative takes two
  characters, a later one takes only the first of them and the slash that has to follow
  meets a digit; so the first alternative that matches is the only one that can lead to
  a match of the whole expression.
\<close>

type_synonym datetime = "nat \<times> nat \<times> nat"

definition digit_val :: "char \<Rightarrow> nat" where
  "digit_val c = of_char c - 48"

definition nonzero_digit :: "char \<Rightarrow> bool" where
  "nonzero_digit c \<longleftrightarrow> isdigit c \<and> c \<noteq> CHR ''0''"

text \<open>\<open>1[0-2]|0[1-9]|[1-9]\<close>: the value and the rest of the string.\<close>

definition match_m :: "string \<Rightarrow> (nat \<times> string) option" where
  "match_m s =
     (case s of
        [] \<Rightarrow> None
      | a # r \<Rightarrow>
          (case r of
             [] \<Rightarrow> if nonzero_digit a then Some (digit_val a, r) else None
           | b # r' \<Rightarrow>
               if a = CHR ''1'' \<and> (b = CHR ''0'' \<or> b = CHR ''1'' \<or> b = CHR ''2'')
               then Some (10 + digit_val b, r')
               else if a = CHR ''0'' \<and> nonzero_digit b then Some (digit_val b, r')
               else if nonzero_digit a then Some (digit_val a, r)
               else None))"

text \<open>\<open>3[0-1]|[1-2]\d|0[1-9]|[1-9]| [1-9]\<close>.\<close>

definition match_d :: "string \<Rightarrow> (nat \<times> string) option" where
  "match_d s =
     (case s of
        [] \<Rightarrow> None
      | a # r \<Rightarrow>
          (case r of
             [] \<Rightarrow> if nonzero_digit a then Some (digit_val a, r) else None
           | b # r' \<Rightarrow>
               if a = CHR ''3'' \<and> (b = CHR ''0'' \<or> b = CHR ''1'')
               then Some (30 + digit_val b, r')
               else if (a = CHR ''1'' \<or> a = CHR ''2'') \<and> isdigit b
               then Some (10 * digit_val a + digit_val b, r')
               else if a = CHR ''0'' \<and> nonzero_digit b then Some (digit_val b, r')
               else if nonzero_digit a then Some (digit_val a, r)
               else if a = CHR '' '' \<and> nonzero_digit b then Some (digit_val b, r')
               else None))"

text \<open>\<open>\d\d\d\d\<close>.\<close>

definition match_Y :: "string \<Rightarrow> (nat \<times> string) option" where
  "match_Y s =
     (if 4 \<le> length s \<and> (\<forall>c \<in> set (take 4 s). isdigit c)
      then Some (foldl (\<lambda>n c. 10 * n + digit_val c) 0 (take 4 s), drop 4 s)
      else None)"

definition is_leap :: "nat \<Rightarrow> bool" where
  "is_leap y \<longleftrightarrow> y mod 4 = 0 \<and> (y mod 100 \<noteq> 0 \<or> y mod 400 = 0)"

definition days_in_month :: "nat \<Rightarrow> nat \<Rightarrow> nat" where
  "days_in_month y m =
     (if m = 2 then (if is_leap y then 29 else 28)
      else if m = 4 \<or> m = 6 \<or> m = 9 \<or> m = 11 then 30 else 31)"

definition strptime :: "string \<Rightarrow> error + datetime" where
  "strptime s =
     (case match_m s of
        None \<Rightarrow> Inl ValueError
      | Some (m, r1) \<Rightarrow>
          if take 1 r1 \<noteq> ''/'' then Inl ValueError
          else (case match_d (drop 1 r1) of
                  None \<Rightarrow> Inl ValueError
                | Some (d, r2) \<Rightarrow>
                    if take 1 r2 \<noteq> ''/'' then Inl ValueError
                    else (case match_Y (drop 1 r2) of
                            None \<Rightarrow> Inl ValueError
                          | Some (y, r3) \<Rightarrow>
                              if r3 \<noteq> [] then Inl ValueError
                              else if 1 \<le> y \<and> d \<le> days_in_month y m then Inr (y, m, d)
                              else Inl ValueError)))"

subsection \<open>\<open>generate_indexes\<close>\<close>

text \<open>The key of the sort, \<open>lambda p: datetime.strptime(p['date'], '%m/%d/%Y')\<close>.\<close>

definition date_key :: "post \<Rightarrow> error + datetime" where
  "date_key p = (case getitem p ''date'' of Inl e \<Rightarrow> Inl e | Inr d \<Rightarrow> strptime d)"

text \<open>\<open>sorted\<close> computes the key of every element first, in order; the first key
  that raises ends the call.\<close>

fun sort_keys :: "post list \<Rightarrow> error + datetime list" where
  "sort_keys [] = Inr []"
| "sort_keys (p # ps) =
     (case date_key p of
        Inl e \<Rightarrow> Inl e
      | Inr k \<Rightarrow> (case sort_keys ps of Inl e \<Rightarrow> Inl e | Inr ks \<Rightarrow> Inr (k # ks)))"

text \<open>\<open>sorted(xs, key=..., reverse=True)\<close>: CPython reverses the list, sorts it stably in
  ascending order of the keys, and reverses the result, so equal keys keep their
  order.\<close>

definition sorted_reverse :: "('a \<Rightarrow> 'k::linorder) \<Rightarrow> 'a list \<Rightarrow> 'a list" where
  "sorted_reverse key xs = rev (sort_key key (rev xs))"

record chrono_summary =
  ch_path :: string
  ch_title :: string
  ch_excerpt :: string
  ch_thumbnail :: string
  ch_category :: string

record catalog_summary =
  ca_path :: string
  ca_title :: string
  ca_excerpt :: string
  ca_thumbnail :: string
  ca_date :: string

record chrono_entry =
  ce_date :: string
  ce_posts :: "chrono_summary list"

definition chrono_summary_of :: "post \<Rightarrow> error + chrono_summary" where
  "chrono_summary_of p =
     (case getitem p ''path'' of Inl e \<Rightarrow> Inl e | Inr path \<Rightarrow>
      case getitem p ''title'' of Inl e \<Rightarrow> Inl e | Inr title \<Rightarrow>
      case getitem p ''excerpt'' of Inl e \<Rightarrow> Inl e | Inr excerpt \<Rightarrow>
      case getitem p ''thumbnail'' of Inl e \<Rightarrow> Inl e | Inr thumbnail \<Rightarrow>
      case getitem p ''category'' of Inl e \<Rightarrow> Inl e | Inr category \<Rightarrow>
        Inr \<lparr>ch_path = path, ch_title = title, ch_excerpt = excerpt,
             ch_thumbnail = thumbnail, ch_category = category\<rparr>)"

definition catalog_summary_of :: "post \<Rightarrow> error + catalog_summary" where
  "catalog_summary_of p =
     (case getitem p ''path'' of Inl e \<Rightarrow> Inl e | Inr path \<Rightarrow>
      case getitem p ''title'' of Inl e \<Rightarrow> Inl e | Inr title \<Rightarrow>
      case getitem p ''excerpt'' of Inl e \<Rightarrow> Inl e | Inr excerpt \<Rightarrow>
      case getitem p ''thumbnail'' of Inl e \<Rightarrow> Inl e | Inr thumbnail \<Rightarrow>
      case getitem p ''date'' of Inl e \<Rightarrow> Inl e | Inr date \<Rightarrow>
        Inr \<lparr>ca_path = path, ca_title = title, ca_excerpt = excerpt,
             ca_thumbnail = thumbnail, ca_date = date\<rparr>)"

text \<open>
  \<open>if k not in m: m[k] = []\<close> followed by \<open>m[k].append(v)\<close>. A Python dictionary keeps
  its keys in the order of their insertion, and \<open>chrono\<close> and the JSON output read
  that order, so the dictionary is an association list with a new key added at the end.
\<close>

fun dict_append :: "'k \<Rightarrow> 'v \<Rightarrow> ('k \<times> 'v list) list \<Rightarrow> ('k \<times> 'v list) list" where
  "dict_append k v [] = [(k, [v])]"
| "dict_append k v ((k', vs) # m) =
     (if k' = k then (k', vs @ [v]) # m else (k', vs) # dict_append k v m)"

fun chrono_loop ::
  "post list \<Rightarrow> (string \<times> chrono_summary list) list \<Rightarrow>
   error + (string \<times> chrono_summary list) list" where
  "chrono_loop [] chrono_map = Inr chrono_map"
| "chrono_loop (p # ps) chrono_map =
     (case getitem p ''date'' of Inl e \<Rightarrow> Inl e | Inr date \<Rightarrow>
      case chrono_summary_of p of Inl e \<Rightarrow> Inl e | Inr s \<Rightarrow>
        chrono_loop ps (dict_append date s chrono_map))"

fun catalog_loop ::
  "post list \<Rightarrow> (string \<times> catalog_summary list) list \<Rightarrow>
   error + (string \<times> catalog_summary list) list" where
  "catalog_loop [] catalog = Inr catalog"
| "catalog_loop (p # ps) catalog =
     (case getitem p ''category'' of Inl e \<Rightarrow> Inl e | Inr category \<Rightarrow>
      case catalog_summary_of p of Inl e \<Rightarrow> Inl e | Inr s \<Rightarrow>
        catalog_loop ps (dict_append category s catalog))"

definition sorted_posts_of :: "datetime list \<Rightarrow> post list \<Rightarrow> post list" where
  "sorted_posts_of keys posts = map snd (sorted_reverse fst (zip keys posts))"

definition generate_indexes ::
  "post list \<Rightarrow> error + chrono_entry list \<times> (string \<times> catalog_summary list) list" where
  "generate_indexes posts =
     (case sort_keys posts of Inl e \<Rightarrow> Inl e | Inr keys \<Rightarrow>
      let sorted_posts = sorted_posts_of keys posts in
      case chrono_loop sorted_posts [] of Inl e \<Rightarrow> Inl e | Inr chrono_map \<Rightarrow>
      let chrono = map (\<lambda>(date, posts). \<lparr>ce_date = date, ce_posts = posts\<rparr>) chrono_map in
      case catalog_loop sorted_posts [] of Inl e \<Rightarrow> Inl e | Inr catalog \<Rightarrow>
        Inr (chrono, catalog))"

subsection \<open>The loop of \<open>main\<close> that feeds the index builder\<close>

text \<open>
  \<open>main\<close> reads each file, calls \<open>parse_post\<close> in a \<open>try\<close> block, appends the post
  when the call returns and goes on to the next file when it raises. The files are given
  here as pairs of a name and a content. \<open>generate_indexes\<close> is called outside any
  \<open>try\<close> block, when at least one post was parsed.
\<close>

fun parsed_posts :: "(string \<times> string) list \<Rightarrow> post list" where
  "parsed_posts [] = []"
| "parsed_posts ((name, content) # files) =
     (case parse_post content name of
        Inl e \<Rightarrow> parsed_posts files
      | Inr p \<Rightarrow> p # parsed_posts files)"

definition main_indexes ::
  "(string \<times> string) list \<Rightarrow>
   (error + chrono_entry list \<times> (string \<times> catalog_summary list) list) option" where
  "main_indexes files =
     (let posts = parsed_posts files in
      if posts = [] then None else Some (generate_indexes posts))"

section \<open>The markup as the specification describes it\<close>

text \<open>
  The specification's markup model: a header line opens a named section, the lines that
  follow belong to it until the next header or the end of the input, and the lines
  before the first header are discarded. \<open>spec_sections\<close> lists the sections of a
  sequence of lines in order, each with its name as written and its body lines.
\<close>

fun spec_sections :: "string list \<Rightarrow> (string \<times> string list) list" where
  "spec_sections [] = []"
| "spec_sections (l # ls) =
     (case section_match l of
        Some name \<Rightarrow> (name, takeWhile (\<lambda>x. section_match x = None) ls) # spec_sections ls
      | None \<Rightarrow> spec_sections ls)"

text \<open>The value a section stores: its lines unescaped, joined with line feeds and
  trimmed.\<close>

definition section_value :: "string list \<Rightarrow> string" where
  "section_value body = strip (join_nl (map unescape body))"

text \<open>Storing one section into the post; a section without any body line stores
  nothing.\<close>

definition store :: "post \<Rightarrow> string \<times> string list \<Rightarrow> post" where
  "store p s = (if snd s = [] then p else p(lower (fst s) \<mapsto> section_value (snd s)))"

text \<open>A body without any character other than whitespace, and a required field that
  no section fills: no section of that lowercased name has a body line, or the last one
  that has is blank.\<close>

definition blank :: "string list \<Rightarrow> bool" where
  "blank body \<longleftrightarrow> (\<forall>l \<in> set body. \<forall>c \<in> set l. isspace c)"

definition missing_or_empty :: "(string \<times> string list) list \<Rightarrow> string \<Rightarrow> bool" where
  "missing_or_empty secs f \<longleftrightarrow>
     (case filter (\<lambda>s. lower (fst s) = f \<and> snd s \<noteq> []) secs of
        [] \<Rightarrow> True
      | x # xs \<Rightarrow> blank (snd (last (x # xs))))"

text \<open>A string that the image pattern matches from its first to its last character.\<close>

definition is_img_tag :: "string \<Rightarrow> bool" where
  "is_img_tag t \<longleftrightarrow> img_match t = Some (length t)"

text \<open>A \<open><\<close> with a \<open>>\<close> somewhere after it.\<close>

definition has_tag :: "string \<Rightarrow> bool" where
  "has_tag s \<longleftrightarrow> (\<exists>a b c. s = a @ CHR ''<'' # b @ CHR ''>'' # c)"

section \<open>Notions for the index builder\<close>

text \<open>The two grouping loops without their error cases: \<open>dict_append\<close> applied to a
  list of key and value pairs in order; and the pairs a grouped dictionary holds.\<close>

fun group_all :: "('k \<times> 'v) list \<Rightarrow> ('k \<times> 'v list) list \<Rightarrow> ('k \<times> 'v list) list" where
  "group_all [] m = m"
| "group_all ((k, v) # kvs) m = group_all kvs (dict_append k v m)"

definition entries :: "('k \<times> 'v list) list \<Rightarrow> ('k \<times> 'v) list" where
  "entries m = concat (map (\<lambda>(k, vs). map (Pair k) vs) m)"

text \<open>A post the index builder accepts has the six keys it reads and a date that
  \<open>strptime\<close> parses. For such a post, \<open>the_field\<close> reads a key, \<open>the_key\<close> is
  the key of the sort, and \<open>chrono_pair\<close> and \<open>catalog_pair\<close> are the grouping key
  and the summary that the two loops add.\<close>

definition the_field :: "post \<Rightarrow> string \<Rightarrow> string" where
  "the_field p k = (case p k of None \<Rightarrow> [] | Some v \<Rightarrow> v)"

definition the_key :: "post \<Rightarrow> datetime" where
  "the_key p = (case date_key p of Inl e \<Rightarrow> (0, 0, 0) | Inr k \<Rightarrow> k)"

definition chrono_pair :: "post \<Rightarrow> string \<times> chrono_summary" where
  "chrono_pair p =
     (the_field p ''date'',
      \<lparr>ch_path = the_field p ''path'', ch_title = the_field p ''title'',
       ch_excerpt = the_field p ''excerpt'', ch_thumbnail = the_field p ''thumbnail'',
       ch_category = the_field p ''category''\<rparr>)"

definition catalog_pair :: "post \<Rightarrow> string \<times> catalog_summary" where
  "catalog_pair p =
     (the_field p ''category'',
      \<lparr>ca_path = the_field p ''path'', ca_title = the_field p ''title'',
       ca_excerpt = the_field p ''excerpt'', ca_thumbnail = the_field p ''thumbnail'',
       ca_date = the_field p ''date''\<rparr>)"

definition valid_post :: "post \<Rightarrow> bool" where
  "valid_post p \<longleftrightarrow>
     list_all (\<lambda>k. p k \<noteq> None)
       [''path'', ''title'', ''excerpt'', ''thumbnail'', ''category'', ''date''] \<and>
     (case p ''date'' of
        None \<Rightarrow> False
      | Some d \<Rightarrow> (case strptime d of Inl e \<Rightarrow> False | Inr k \<Rightarrow> True))"

text \<open>
  To compare the posts of the two outputs with the input: the six values
  (date, path, title, excerpt, thumbnail, category) of a post, of every summary of the
  chronological index with the date of its entry, and of every summary of the catalog
  with its category. \<open>newer_or_same\<close> and \<open>newer\<close> compare two date strings by the
  calendar dates they parse to.
\<close>

definition post_view :: "post \<Rightarrow> string option list" where
  "post_view p = map p [''date'', ''path'', ''title'', ''excerpt'', ''thumbnail'', ''category'']"

definition chrono_views :: "chrono_entry list \<Rightarrow> string list list" where
  "chrono_views chrono =
     concat (map (\<lambda>e. map (\<lambda>s. [ce_date e, ch_path s, ch_title s, ch_excerpt s,
                                  ch_thumbnail s, ch_category s]) (ce_posts e)) chrono)"

definition catalog_views :: "(string \<times> catalog_summary list) list \<Rightarrow> string list list" where
  "catalog_views catalog =
     concat (map (\<lambda>(category, posts).
                    map (\<lambda>s. [ca_date s, ca_path s, ca_title s, ca_excerpt s,
                               ca_thumbnail s, category]) posts) catalog)"

definition newer_or_same :: "string \<Rightarrow> string \<Rightarrow> bool" where
  "newer_or_same d d' \<longleftrightarrow>
     (case strptime d of
        Inl e \<Rightarrow> False
      | Inr k \<Rightarrow> (case strptime d' of Inl e \<Rightarrow> False | Inr k' \<Rightarrow> k' \<le> k))"

definition newer :: "string \<Rightarrow> string \<Rightarrow> bool" where
  "newer d d' \<longleftrightarrow>
     (case strptime d of
        Inl e \<Rightarrow> False
      | Inr k \<Rightarrow> (case strptime d' of Inl e \<Rightarrow> False | Inr k' \<Rightarrow> k' < k))"

section \<open>Properties of the string primitives\<close>

lemma isspace_simps:
  "\<not> isspace CHR ''[''" "\<not> isspace CHR '']''" "\<not> isspace CHR ''<''" "\<not> isspace CHR ''>''"
  "\<not> isspace CHR 0x22" "isspace CHR '' ''" "isspace CHR 0x0A" "\<not> isspace CHR ''.''"
  by (simp_all add: isspace_def)

lemma is_word_simps:
  "\<not> is_word CHR '']''" "\<not> is_word CHR ''[''" "\<not> is_word CHR 0x5C" "\<not> is_word CHR 0x0A"
  by (simp_all add: is_word_def)

lemma strip_eq_Nil_iff: "strip s = [] \<longleftrightarrow> (\<forall>c \<in> set s. isspace c)"
proof
  assume "strip s = []"
  then have a: "\<forall>c \<in> set (dropWhile isspace s). isspace c"
    by (simp add: strip_def)
  have "dropWhile isspace s = []"
  proof (rule ccontr)
    assume n: "dropWhile isspace s \<noteq> []"
    then have "\<not> isspace (hd (dropWhile isspace s))" by (rule hd_dropWhile)
    with a n show False by (simp add: hd_in_set)
  qed
  then show "\<forall>c \<in> set s. isspace c" by simp
next
  assume "\<forall>c \<in> set s. isspace c"
  then have d: "dropWhile isspace s = []" by simp
  show "strip s = []" unfolding strip_def d by simp
qed

lemma strip_id: "s \<noteq> [] \<Longrightarrow> \<not> isspace (hd s) \<Longrightarrow> \<not> isspace (last s) \<Longrightarrow> strip s = s"
proof -
  assume s: "s \<noteq> []" and h: "\<not> isspace (hd s)" and l: "\<not> isspace (last s)"
  from s h have "dropWhile isspace s = s" by (cases s) auto
  moreover from s l have "dropWhile isspace (rev s) = rev s"
    by (cases "rev s") (auto simp: last_rev [symmetric] simp del: last_rev)
  ultimately show ?thesis by (simp add: strip_def)
qed

lemma length_strip: "length (strip s) \<le> length s"
proof -
  have "length (strip s) = length (dropWhile isspace (rev (dropWhile isspace s)))"
    by (simp add: strip_def)
  also have "\<dots> \<le> length (rev (dropWhile isspace s))" by (rule length_dropWhile_le)
  also have "\<dots> \<le> length s" by (simp add: length_dropWhile_le)
  finally show ?thesis .
qed

lemma unescape_no_backslash: "CHR 0x5C \<notin> set s \<Longrightarrow> unescape s = s"
  by (induction s rule: unescape.induct) auto

lemma split_nl_no_nl: "CHR 0x0A \<notin> set l \<Longrightarrow> split_nl l = [l]"
  by (induction l) auto

lemma split_nl_line: "CHR 0x0A \<notin> set l \<Longrightarrow> split_nl (l @ CHR 0x0A # r) = l # split_nl r"
  by (induction l) auto

section \<open>Properties of the section loop\<close>

lemma section_match_nonempty: "section_match l = Some n \<Longrightarrow> n \<noteq> []"
  by (auto simp: section_match_def Let_def split: list.splits if_splits)

lemma section_match_header:
  assumes "name \<noteq> []" and "\<forall>c \<in> set name. is_word c"
  shows "section_match (CHR ''['' # name @ '']'') = Some name"
proof -
  from assms(2) have "takeWhile is_word (name @ '']'') = name"
    and "dropWhile is_word (name @ '']'') = '']''"
    by (simp_all add: takeWhile_append2 dropWhile_append2 is_word_simps)
  with assms(1) show ?thesis by (simp add: section_match_def)
qed

lemma section_match_escaped: "section_match (CHR 0x5C # s) = None"
  by (simp add: section_match_def)

lemma spec_sections_names: "(n, b) \<in> set (spec_sections ls) \<Longrightarrow> n \<noteq> []"
  by (induction ls) (auto split: option.splits dest: section_match_nonempty)

lemma save_section_None: "save_section p None sc = p"
  by (simp add: save_section_def)

lemma save_section_store:
  "n \<noteq> [] \<Longrightarrow> save_section p (Some n) (map unescape b) = store p (n, b)"
  by (simp add: save_section_def store_def section_value_def)

lemma parse_lines_open:
  "n \<noteq> [] \<Longrightarrow>
   (case parse_lines ls (p, Some n, sc) of (q, cur, sc') \<Rightarrow> save_section q cur sc') =
   foldl store
     (save_section p (Some n) (sc @ map unescape (takeWhile (\<lambda>x. section_match x = None) ls)))
     (spec_sections ls)"
proof (induction ls arbitrary: p n sc)
  case Nil
  then show ?case by simp
next
  case (Cons l ls)
  show ?case
  proof (cases "section_match l")
    case None
    with Cons show ?thesis by (simp add: parse_line_def)
  next
    case (Some m)
    then have m: "m \<noteq> []" by (rule section_match_nonempty)
    from Some Cons.IH [OF m] m show ?thesis
      by (simp add: parse_line_def save_section_store)
  qed
qed

lemma parse_lines_closed:
  "(case parse_lines ls (p, None, []) of (q, cur, sc') \<Rightarrow> save_section q cur sc') =
   foldl store p (spec_sections ls)"
proof (induction ls)
  case Nil
  then show ?case by (simp add: save_section_None)
next
  case (Cons l ls)
  show ?case
  proof (cases "section_match l")
    case None
    with Cons show ?thesis by (simp add: parse_line_def)
  next
    case (Some m)
    then have m: "m \<noteq> []" by (rule section_match_nonempty)
    from Some parse_lines_open [OF m, of ls p "[]"] m show ?thesis
      by (simp add: parse_line_def save_section_store save_section_None)
  qed
qed

lemma parse_sections_fold:
  "parse_sections text fn = foldl store (initial_post fn) (spec_sections (split_nl text))"
  by (simp add: parse_sections_def parse_lines_closed)

lemma foldl_store_last:
  "foldl store p secs f =
     (case filter (\<lambda>s. lower (fst s) = f \<and> snd s \<noteq> []) secs of
        [] \<Rightarrow> p f
      | x # xs \<Rightarrow> Some (section_value (snd (last (x # xs)))))"
proof (induction secs rule: rev_induct)
  case Nil
  then show ?case by simp
next
  case (snoc s secs)
  then show ?case by (auto simp: store_def split: list.splits)
qed

section \<open>Escaped and bare bracket lines\<close>

text \<open>
  Claim C10. Escape round-trip: inside a section, a line that consists of a backslash,
  an opening bracket, a name and a closing bracket is no header; it is kept as a content
  line with the backslash removed, so a \<open>Content\<close> section whose body is that line
  stores the bracketed name as its content. A bare line that consists of the bracketed
  name, where the name is a non-empty run of word characters (\<open>\w+\<close>), is a header:
  it stores the section before it and opens a section with that name and no lines yet.
\<close>

theorem escape_round_trip:
  assumes "name \<noteq> []" and "\<forall>c \<in> set name. is_word c" and "current \<noteq> []"
  shows "section_match (CHR 0x5C # CHR ''['' # name @ '']'') = None \<and>
         parse_line (CHR 0x5C # CHR ''['' # name @ '']'') (p, Some current, body) =
           (p, Some current, body @ [CHR ''['' # name @ '']'']) \<and>
         parse_sections (''[Content]'' @ CHR 0x0A # CHR 0x5C # CHR ''['' # name @ '']'') fn ''content'' =
           Some (CHR ''['' # name @ '']'') \<and>
         section_match (CHR ''['' # name @ '']'') = Some name \<and>
         parse_line (CHR ''['' # name @ '']'') (q, cur, sc) =
           (save_section q cur sc, Some name, [])"
proof -
  let ?esc = "CHR 0x5C # CHR ''['' # name @ '']''"
  let ?lit = "CHR ''['' # name @ '']''"
  from assms(2) have nb: "CHR 0x5C \<notin> set name" and nn: "CHR 0x0A \<notin> set name"
    using is_word_simps by auto
  have esc: "section_match ?esc = None" by (rule section_match_escaped)
  from nb have un: "unescape ?esc = ?lit" by (simp add: unescape_no_backslash)
  have hdr: "section_match ?lit = Some name"
    using assms(1,2) by (rule section_match_header)
  have st: "strip ?lit = ?lit" by (rule strip_id) (simp_all add: isspace_simps)
  have c: "section_match ''[Content]'' = Some ''Content''"
    by (simp add: section_match_def is_word_def)
  from nn have sp: "split_nl (''[Content]'' @ CHR 0x0A # ?esc) = [''[Content]'', ?esc]"
    by (subst split_nl_line) (simp_all add: split_nl_no_nl)
  have lc: "lower ''Content'' = ''content''" by code_simp
  have "parse_sections (''[Content]'' @ CHR 0x0A # ?esc) fn ''content'' = Some ?lit"
    unfolding parse_sections_def sp
    using c esc un st lc by (simp add: parse_line_def save_section_def)
  with esc un hdr assms(3) show ?thesis by (simp add: parse_line_def)
qed

text \<open>The round trip at the name \<open>Foo\<close>.\<close>

theorem escape_round_trip_witness:
  "section_match (CHR 0x5C # ''[Foo]'') = None \<and>
   parse_line (CHR 0x5C # ''[Foo]'') (Map.empty, Some ''Content'', [''a'']) =
     (Map.empty, Some ''Content'', [''a'', ''[Foo]'']) \<and>
   parse_sections (''[Content]'' @ CHR 0x0A # CHR 0x5C # ''[Foo]'') ''f.txt'' ''content'' = Some ''[Foo]'' \<and>
   section_match ''[Foo]'' = Some ''Foo'' \<and>
   parse_line ''[Foo]'' (Map.empty, Some ''Content'', [''a'']) =
     (save_section Map.empty (Some ''Content'') [''a''], Some ''Foo'', [])"
  using escape_round_trip [of "''Foo''" "''Content''" Map.empty "[''a'']" "''f.txt''" Map.empty "Some ''Content''" "[''a'']"]
  by (simp add: is_word_def)

section \<open>The fields of a parsed post\<close>

text \<open>A field of the post after the section loop is the value of the last section of
  that lowercased name that has a body line, and the initial value when there is none.\<close>

lemma parse_sections_field:
  "parse_sections text fn f =
     (case filter (\<lambda>s. lower (fst s) = f \<and> snd s \<noteq> []) (spec_sections (split_nl text)) of
        [] \<Rightarrow> initial_post fn f
      | x # xs \<Rightarrow> Some (section_value (snd (last (x # xs)))))"
  by (simp add: parse_sections_fold foldl_store_last)

lemma parse_sections_keys:
  "\<exists>v. parse_sections text fn ''title'' = Some v"
  "\<exists>v. parse_sections text fn ''date'' = Some v"
  "\<exists>v. parse_sections text fn ''category'' = Some v"
  "\<exists>v. parse_sections text fn ''content'' = Some v"
  by (simp_all add: parse_sections_field initial_post_def split: list.splits)

lemma parse_post_eq:
  assumes "parse_sections text fn ''content'' = Some c"
    and "parse_sections text fn ''title'' = Some t"
    and "parse_sections text fn ''date'' = Some d"
    and "parse_sections text fn ''category'' = Some g"
  shows "parse_post text fn =
           (if t = [] \<or> d = [] \<or> g = [] then Inl ValueError
            else Inr ((parse_sections text fn)(''excerpt'' \<mapsto> make_excerpt c)))"
  using assms by (simp add: parse_post_def getitem_def Let_def)

lemma parse_post_Inr:
  assumes "parse_post text fn = Inr p"
  shows "\<exists>c. parse_sections text fn ''content'' = Some c \<and>
             p = (parse_sections text fn)(''excerpt'' \<mapsto> make_excerpt c)"
proof -
  obtain c t d g where k: "parse_sections text fn ''content'' = Some c"
    "parse_sections text fn ''title'' = Some t" "parse_sections text fn ''date'' = Some d"
    "parse_sections text fn ''category'' = Some g"
    using parse_sections_keys by blast
  from assms parse_post_eq [OF k] have "p = (parse_sections text fn)(''excerpt'' \<mapsto> make_excerpt c)"
    by (simp split: if_splits)
  with k(1) show ?thesis by blast
qed

lemma filter_last_section:
  assumes "i < length secs" and "P (secs ! i)" and "\<forall>s \<in> set (drop (Suc i) secs). \<not> P s"
  shows "\<exists>ys. filter P secs = ys @ [secs ! i]"
proof -
  have "secs = take i secs @ secs ! i # drop (Suc i) secs"
    using assms(1) by (simp add: id_take_nth_drop)
  then have "filter P secs = filter P (take i secs) @ filter P (secs ! i # drop (Suc i) secs)"
    by (metis filter_append)
  moreover from assms(3) have "filter P (drop (Suc i) secs) = []" by (simp add: filter_empty_conv)
  ultimately show ?thesis using assms(2) by simp
qed

subsection \<open>Repeated headers\<close>

text \<open>
  Claim C3, as the code has it. When a header name occurs more than once, the field
  named by the lowercased name holds the value (lines unescaped, joined, trimmed) of the
  last occurrence that has at least one body line; blank lines count, so a last
  occurrence whose body is only a blank line empties the field. An occurrence with no
  body line at all, a header directly followed by another header or by the end of the
  input, is skipped by the guard \<open>if current_section and section_content\<close> and leaves
  the field as it was. The field \<open>excerpt\<close> is excluded: the parser overwrites it with
  the derived excerpt.
\<close>

theorem last_section_with_lines_wins:
  assumes "parse_post text fn = Inr p"
    and "secs = spec_sections (split_nl text)"
    and "i < length secs" and "secs ! i = (name, body)" and "body \<noteq> []"
    and "\<forall>s \<in> set (drop (Suc i) secs). lower (fst s) = lower name \<longrightarrow> snd s = []"
    and "lower name \<noteq> ''excerpt''"
  shows "p (lower name) = Some (strip (join_nl (map unescape body)))"
proof -
  let ?P = "\<lambda>s. lower (fst s) = lower name \<and> snd s \<noteq> []"
  from assms(4,5) have "?P (secs ! i)" by simp
  moreover from assms(6) have "\<forall>s \<in> set (drop (Suc i) secs). \<not> ?P s" by auto
  ultimately obtain ys where "filter ?P secs = ys @ [secs ! i]"
    using filter_last_section [OF assms(3), of ?P] by blast
  with assms(2,4) have "parse_sections text fn (lower name) = Some (section_value body)"
    by (cases ys) (simp_all add: parse_sections_field)
  moreover from parse_post_Inr [OF assms(1)] assms(7)
  have "p (lower name) = parse_sections text fn (lower name)" by auto
  ultimately show ?thesis by (simp add: section_value_def)
qed


text \<open>Three \<open>Title\<close> sections, the last without a body line: the second one wins.\<close>

theorem last_section_with_lines_wins_witness:
  "(case parse_post ''[Title]\<newline>Old\<newline>[Date]\<newline>01/05/2024\<newline>[Category]\<newline>news\<newline>[Title]\<newline>New\<newline>[Title]'' ''a.txt'' of
      Inr p \<Rightarrow> p ''title'' | Inl e \<Rightarrow> None) = Some ''New''"
proof -
  let ?text = "''[Title]\<newline>Old\<newline>[Date]\<newline>01/05/2024\<newline>[Category]\<newline>news\<newline>[Title]\<newline>New\<newline>[Title]''"
  let ?secs = "[(''Title'', [''Old'']), (''Date'', [''01/05/2024'']), (''Category'', [''news'']),
               (''Title'', [''New'']), (''Title'', [])]"
  have "\<not> isl (parse_post ?text ''a.txt'')" by code_simp
  then obtain p where p: "parse_post ?text ''a.txt'' = Inr p"
    by (cases "parse_post ?text ''a.txt''") auto
  have secs: "?secs = spec_sections (split_nl ?text)" by code_simp
  have l: "lower ''Title'' = ''title''" by code_simp
  have v: "strip (join_nl (map unescape [''New''])) = ''New''" by code_simp
  have "p (lower ''Title'') = Some (strip (join_nl (map unescape [''New''])))"
    by (rule last_section_with_lines_wins [OF p secs, of 3]) (simp_all add: l)
  with p l v show ?thesis by simp
qed

text \<open>The claim as stated fails: the last \<open>Title\<close> section has an empty body, and the
  field keeps the value of the first.\<close>

theorem last_occurrence_counterexample:
  "(case parse_post ''[Title]\<newline>First\<newline>[Date]\<newline>01/05/2024\<newline>[Category]\<newline>news\<newline>[Title]'' ''a.txt'' of
      Inr p \<Rightarrow> p ''title'' | Inl e \<Rightarrow> None) = Some ''First'' \<and>
   last (spec_sections (split_nl ''[Title]\<newline>First\<newline>[Date]\<newline>01/05/2024\<newline>[Category]\<newline>news\<newline>[Title]'')) =
     (''Title'', [])"
  by code_simp

subsection \<open>The path\<close>

text \<open>
  Claim C4, as the code has it. The \<open>path\<close> of the returned post is \<open>posts/\<close>
  followed by the file name whenever the input has no section whose lowercased name is
  \<open>path\<close> with a body line. The loop stores a section under any name, so a \<open>[Path]\<close>
  section replaces the path.
\<close>

theorem path_from_filename:
  assumes "parse_post text fn = Inr p"
    and "\<forall>s \<in> set (spec_sections (split_nl text)). lower (fst s) = ''path'' \<longrightarrow> snd s = []"
  shows "p ''path'' = Some (''posts/'' @ fn)"
proof -
  from assms(2)
  have "filter (\<lambda>s. lower (fst s) = ''path'' \<and> snd s \<noteq> []) (spec_sections (split_nl text)) = []"
    by (auto simp: filter_empty_conv)
  then have "parse_sections text fn ''path'' = Some (''posts/'' @ fn)"
    by (simp add: parse_sections_field initial_post_def)
  with parse_post_Inr [OF assms(1)] show ?thesis by auto
qed

text \<open>A post whose content mentions the word path, without a section of that name.\<close>

theorem path_from_filename_witness:
  "(case parse_post ''[Title]\<newline>T\<newline>[Date]\<newline>01/05/2024\<newline>[Category]\<newline>news\<newline>[Content]\<newline>path'' ''a.txt'' of
      Inr p \<Rightarrow> p ''path'' | Inl e \<Rightarrow> None) = Some ''posts/a.txt''"
proof -
  let ?text = "''[Title]\<newline>T\<newline>[Date]\<newline>01/05/2024\<newline>[Category]\<newline>news\<newline>[Content]\<newline>path''"
  have "\<not> isl (parse_post ?text ''a.txt'')" by code_simp
  then obtain p where p: "parse_post ?text ''a.txt'' = Inr p"
    by (cases "parse_post ?text ''a.txt''") auto
  have "list_all (\<lambda>s. lower (fst s) = ''path'' \<longrightarrow> snd s = []) (spec_sections (split_nl ?text))"
    by code_simp
  then have "\<forall>s \<in> set (spec_sections (split_nl ?text)). lower (fst s) = ''path'' \<longrightarrow> snd s = []"
    by (simp only: list_all_iff)
  from path_from_filename [OF p this] p show ?thesis by simp
qed

text \<open>The claim as stated fails: a \<open>[Path]\<close> section sets the path from the text.\<close>

theorem path_section_counterexample:
  "(case parse_post ''[Path]\<newline>elsewhere\<newline>[Title]\<newline>T\<newline>[Date]\<newline>01/05/2024\<newline>[Category]\<newline>news'' ''a.txt'' of
      Inr p \<Rightarrow> p ''path'' | Inl e \<Rightarrow> None) = Some ''elsewhere''"
  by code_simp


subsection \<open>Required fields\<close>

lemma unescape_all_space: "(\<forall>c \<in> set (unescape l). isspace c) \<longleftrightarrow> (\<forall>c \<in> set l. isspace c)"
  by (induction l rule: unescape.induct) (auto simp: isspace_def)

lemma join_nl_all_space:
  "(\<forall>c \<in> set (join_nl ls). isspace c) \<longleftrightarrow> (\<forall>l \<in> set ls. \<forall>c \<in> set l. isspace c)"
  by (induction ls rule: join_nl.induct) (auto simp: isspace_simps)

lemma section_value_empty: "section_value body = [] \<longleftrightarrow> blank body"
  by (simp add: section_value_def strip_eq_Nil_iff join_nl_all_space unescape_all_space blank_def)

lemma required_field_empty:
  assumes "f = ''title'' \<or> f = ''date'' \<or> f = ''category''"
  shows "parse_sections text fn f = Some [] \<longleftrightarrow> missing_or_empty (spec_sections (split_nl text)) f"
  using assms
  by (auto simp: parse_sections_field missing_or_empty_def initial_post_def section_value_empty
           split: list.splits)

text \<open>
  Claim C7. \<open>parse_post\<close> fails exactly when, after the section loop, one of the
  fields \<open>title\<close>, \<open>date\<close>, \<open>category\<close> is the empty string, and the failure is
  the \<open>ValueError\<close> of the validation; such a field is empty exactly when its section
  is missing or blank. When the input has a section for each of the three names and
  every section of these names has a character that is no whitespace, \<open>parse_post\<close>
  returns a post, whatever the other sections (a \<open>Content\<close> section among them) hold.
\<close>

theorem required_fields:
  "(parse_post text fn = Inl e \<longleftrightarrow>
      e = ValueError \<and>
      (parse_sections text fn ''title'' = Some [] \<or> parse_sections text fn ''date'' = Some [] \<or>
       parse_sections text fn ''category'' = Some [])) \<and>
   (parse_sections text fn ''title'' = Some [] \<longleftrightarrow> missing_or_empty (spec_sections (split_nl text)) ''title'') \<and>
   (parse_sections text fn ''date'' = Some [] \<longleftrightarrow> missing_or_empty (spec_sections (split_nl text)) ''date'') \<and>
   (parse_sections text fn ''category'' = Some [] \<longleftrightarrow>
      missing_or_empty (spec_sections (split_nl text)) ''category'') \<and>
   ((\<forall>f \<in> {''title'', ''date'', ''category''}.
       (\<exists>s \<in> set (spec_sections (split_nl text)). lower (fst s) = f) \<and>
       (\<forall>s \<in> set (spec_sections (split_nl text)). lower (fst s) = f \<longrightarrow> \<not> blank (snd s))) \<longrightarrow>
    (\<exists>p. parse_post text fn = Inr p))"
proof -
  let ?secs = "spec_sections (split_nl text)"
  obtain c t d g where k: "parse_sections text fn ''content'' = Some c"
    "parse_sections text fn ''title'' = Some t" "parse_sections text fn ''date'' = Some d"
    "parse_sections text fn ''category'' = Some g"
    using parse_sections_keys by blast
  note eq = parse_post_eq [OF k]
  have a: "parse_post text fn = Inl e \<longleftrightarrow>
      e = ValueError \<and>
      (parse_sections text fn ''title'' = Some [] \<or> parse_sections text fn ''date'' = Some [] \<or>
       parse_sections text fn ''category'' = Some [])"
    using k by (auto simp: eq)
  have b: "parse_sections text fn ''title'' = Some [] \<longleftrightarrow> missing_or_empty ?secs ''title''"
    "parse_sections text fn ''date'' = Some [] \<longleftrightarrow> missing_or_empty ?secs ''date''"
    "parse_sections text fn ''category'' = Some [] \<longleftrightarrow> missing_or_empty ?secs ''category''"
    by (simp_all add: required_field_empty)
  have present: "\<not> missing_or_empty ?secs f"
    if ex: "\<exists>s \<in> set ?secs. lower (fst s) = f"
      and nb: "\<forall>s \<in> set ?secs. lower (fst s) = f \<longrightarrow> \<not> blank (snd s)" for f
  proof -
    let ?P = "\<lambda>s. lower (fst s) = f \<and> snd s \<noteq> []"
    from ex nb obtain s where s: "s \<in> set ?secs" "lower (fst s) = f" "\<not> blank (snd s)" by blast
    then have "snd s \<noteq> []" by (auto simp: blank_def)
    with s have ne: "filter ?P ?secs \<noteq> []" by (auto simp: filter_empty_conv)
    then have "last (filter ?P ?secs) \<in> set (filter ?P ?secs)" by (rule last_in_set)
    with nb have "\<not> blank (snd (last (filter ?P ?secs)))" by auto
    with ne show ?thesis by (auto simp: missing_or_empty_def split: list.splits)
  qed
  have c: "\<exists>p. parse_post text fn = Inr p"
    if "\<forall>f \<in> {''title'', ''date'', ''category''}.
       (\<exists>s \<in> set ?secs. lower (fst s) = f) \<and>
       (\<forall>s \<in> set ?secs. lower (fst s) = f \<longrightarrow> \<not> blank (snd s))"
  proof -
    from that present have "\<not> missing_or_empty ?secs ''title''" "\<not> missing_or_empty ?secs ''date''"
      "\<not> missing_or_empty ?secs ''category''" by auto
    with b k have "t \<noteq> []" "d \<noteq> []" "g \<noteq> []" by auto
    then show ?thesis by (simp add: eq)
  qed
  from a b c show ?thesis by blast
qed

text \<open>Three inputs: all required sections filled and a content with tags and an
  escaped line; a blank \<open>Date\<close> section; no \<open>Date\<close> section.\<close>

theorem required_fields_witness:
  "(\<exists>p. parse_post (''[Title]\<newline>Hello\<newline>[Date]\<newline>01/05/2024\<newline>[Category]\<newline>news\<newline>[Content]\<newline><b>any</b> text\<newline>'' @ CHR 0x5C # ''[Title]'') ''a.txt'' = Inr p) \<and>
   parse_post ''[Title]\<newline>Hello\<newline>[Date]\<newline>   \<newline>[Category]\<newline>news'' ''b.txt'' = Inl ValueError \<and>
   parse_post ''[Title]\<newline>Hello\<newline>[Category]\<newline>news'' ''c.txt'' = Inl ValueError"
proof -
  let ?good = "''[Title]\<newline>Hello\<newline>[Date]\<newline>01/05/2024\<newline>[Category]\<newline>news\<newline>[Content]\<newline><b>any</b> text\<newline>'' @ CHR 0x5C # ''[Title]''"
  let ?blank = "''[Title]\<newline>Hello\<newline>[Date]\<newline>   \<newline>[Category]\<newline>news''"
  let ?missing = "''[Title]\<newline>Hello\<newline>[Category]\<newline>news''"
  have "list_all (\<lambda>f. list_ex (\<lambda>s. lower (fst s) = f) (spec_sections (split_nl ?good)) \<and>
                      list_all (\<lambda>s. lower (fst s) = f \<longrightarrow> \<not> blank (snd s)) (spec_sections (split_nl ?good)))
          [''title'', ''date'', ''category'']"
    by code_simp
  then have h: "\<forall>f \<in> {''title'', ''date'', ''category''}.
       (\<exists>s \<in> set (spec_sections (split_nl ?good)). lower (fst s) = f) \<and>
       (\<forall>s \<in> set (spec_sections (split_nl ?good)). lower (fst s) = f \<longrightarrow> \<not> blank (snd s))"
    by (simp only: list_all_iff list_ex_iff list.set)
  have b: "missing_or_empty (spec_sections (split_nl ?blank)) ''date''" by code_simp
  have m: "missing_or_empty (spec_sections (split_nl ?missing)) ''date''" by code_simp
  from h required_fields [of ?good "''a.txt''"] have "\<exists>p. parse_post ?good ''a.txt'' = Inr p"
    by blast
  moreover from b required_fields [of ?blank "''b.txt''" ValueError]
  have "parse_post ?blank ''b.txt'' = Inl ValueError" by blast
  moreover from m required_fields [of ?missing "''c.txt''" ValueError]
  have "parse_post ?missing ''c.txt'' = Inl ValueError" by blast
  ultimately show ?thesis by blast
qed


section \<open>The excerpt of a parsed post\<close>

lemma last_dropWhile: "dropWhile P xs \<noteq> [] \<Longrightarrow> last (dropWhile P xs) = last xs"
proof -
  assume a: "dropWhile P xs \<noteq> []"
  have "last xs = last (takeWhile P xs @ dropWhile P xs)" by simp
  also from a have "\<dots> = last (dropWhile P xs)" by (rule last_appendR)
  finally show ?thesis by simp
qed

lemma strip_ends:
  assumes "strip s \<noteq> []"
  shows "\<not> isspace (hd (strip s)) \<and> \<not> isspace (last (strip s))"
proof -
  define t where "t = dropWhile isspace s"
  define r where "r = dropWhile isspace (rev t)"
  have st: "strip s = rev r" by (simp add: strip_def r_def t_def)
  with assms have r: "r \<noteq> []" by simp
  have t: "t \<noteq> []"
  proof
    assume "t = []"
    then have "r = []" by (simp add: r_def)
    with r show False by simp
  qed
  from r have "\<not> isspace (hd r)" unfolding r_def by (rule hd_dropWhile)
  with r have l: "\<not> isspace (last (strip s))" by (simp add: st last_rev)
  from r have "hd (strip s) = last r" by (simp add: st hd_rev)
  also from r have "\<dots> = last (rev t)" unfolding r_def by (rule last_dropWhile)
  also from t have "\<dots> = hd t" by (simp add: last_rev)
  finally have "hd (strip s) = hd t" .
  moreover from t have "\<not> isspace (hd t)" unfolding t_def by (rule hd_dropWhile)
  ultimately show ?thesis using l by simp
qed

lemma set_strip: "set (strip s) \<subseteq> set s"
  by (auto simp: strip_def dest!: set_dropWhileD)

lemma tag_match_pos: "tag_match s = Some n \<Longrightarrow> 0 < n"
  by (auto simp: tag_match_def Let_def split: list.splits if_splits)

lemma length_strip_tags: "length (strip_tags s) \<le> length s"
proof (induction s rule: strip_tags.induct)
  case 1
  then show ?case by simp
next
  case (2 c cs)
  show ?case
  proof (cases "tag_match (c # cs)")
    case None
    with 2 show ?thesis by simp
  next
    case (Some n)
    with 2 have "length (strip_tags (c # cs)) \<le> length (drop n (c # cs))" by simp
    then show ?thesis by simp
  qed
qed

lemma strip_tags_no_lt: "CHR ''<'' \<notin> set s \<Longrightarrow> strip_tags s = s"
  by (induction s) (auto simp: tag_match_def)

lemma parse_post_excerpt:
  assumes "parse_post text fn = Inr p"
  shows "\<exists>c. p ''content'' = Some c \<and> p ''excerpt'' = Some (make_excerpt c)"
  using parse_post_Inr [OF assms] by auto

subsection \<open>The order of the steps\<close>

text \<open>
  Claim C2, as the code has it. The excerpt of a parsed post is derived in this order:
  every image tag is removed from the full content, the first 150 characters of the
  result are taken, that slice is trimmed of whitespace, and then the remaining
  \<open><...>\<close> tags are removed from the trimmed slice; the ellipsis follows when the
  image-stripped content is longer than 150 characters. The trimmed slice has no leading
  or trailing whitespace, and when the slice holds no \<open><\<close> it is the excerpt before
  the ellipsis. Trimming comes before the tags are removed, not after.
\<close>

theorem excerpt_order:
  assumes "parse_post text fn = Inr p"
  shows "\<exists>c. p ''content'' = Some c \<and>
           p ''excerpt'' =
             Some (strip_tags (strip (take 150 (remove_imgs c))) @
                   (if 150 < length (remove_imgs c) then ''...'' else [])) \<and>
           (strip (take 150 (remove_imgs c)) = [] \<or>
            \<not> isspace (hd (strip (take 150 (remove_imgs c)))) \<and>
            \<not> isspace (last (strip (take 150 (remove_imgs c))))) \<and>
           (CHR ''<'' \<notin> set (take 150 (remove_imgs c)) \<longrightarrow>
              strip_tags (strip (take 150 (remove_imgs c))) = strip (take 150 (remove_imgs c)))"
proof -
  from parse_post_excerpt [OF assms] obtain c
    where c: "p ''content'' = Some c" "p ''excerpt'' = Some (make_excerpt c)" by blast
  let ?s = "strip (take 150 (remove_imgs c))"
  have "?s = [] \<or> \<not> isspace (hd ?s) \<and> \<not> isspace (last ?s)"
    using strip_ends [of "take 150 (remove_imgs c)"] by blast
  moreover have "strip_tags ?s = ?s" if "CHR ''<'' \<notin> set (take 150 (remove_imgs c))"
  proof -
    from that set_strip [of "take 150 (remove_imgs c)"] have "CHR ''<'' \<notin> set ?s" by blast
    then show ?thesis by (rule strip_tags_no_lt)
  qed
  moreover have "make_excerpt c =
      strip_tags ?s @ (if 150 < length (remove_imgs c) then ''...'' else [])"
    by (simp add: make_excerpt_def Let_def)
  ultimately show ?thesis using c by auto
qed

theorem excerpt_order_witness:
  \<open>(case parse_post ''[Title]\<newline>T\<newline>[Date]\<newline>01/05/2024\<newline>[Category]\<newline>news\<newline>[Content]\<newline>Hello <img "x.png"> world'' ''a.txt'' of
      Inr p \<Rightarrow> p ''excerpt'' | Inl e \<Rightarrow> None) = Some ''Hello  world''\<close>
proof -
  let ?text = \<open>''[Title]\<newline>T\<newline>[Date]\<newline>01/05/2024\<newline>[Category]\<newline>news\<newline>[Content]\<newline>Hello <img "x.png"> world''\<close>
  let ?c = \<open>''Hello <img "x.png"> world''\<close>
  have "\<not> isl (parse_post ?text ''a.txt'')" by code_simp
  then obtain p where p: "parse_post ?text ''a.txt'' = Inr p"
    by (cases "parse_post ?text ''a.txt''") auto
  have "(case parse_post ?text ''a.txt'' of Inr p \<Rightarrow> p ''content'' | Inl e \<Rightarrow> None) = Some ?c"
    by code_simp
  with p have c: "p ''content'' = Some ?c" by simp
  have r: "remove_imgs ?c = ''Hello  world''" by code_simp
  have n: "CHR ''<'' \<notin> set (take 150 ''Hello  world'')" by code_simp
  have s: "strip (take 150 ''Hello  world'') = ''Hello  world''" by code_simp
  from excerpt_order [OF p] c r n s have "p ''excerpt'' = Some ''Hello  world''" by auto
  with p show ?thesis by simp
qed


text \<open>The claim as stated fails: the code trims before it removes the tags, so the
  space after a leading tag stays in front of the excerpt, where the order of the claim
  would give no leading whitespace.\<close>

theorem excerpt_order_counterexample:
  "(case parse_post ''[Title]\<newline>T\<newline>[Date]\<newline>01/05/2024\<newline>[Category]\<newline>news\<newline>[Content]\<newline><b> bold</b> start'' ''a.txt'' of
      Inr p \<Rightarrow> p ''excerpt'' | Inl e \<Rightarrow> None) = Some '' bold start'' \<and>
   strip (strip_tags (take 150 (remove_imgs ''<b> bold</b> start''))) = ''bold start'' \<and>
   isspace (hd '' bold start'')"
  by code_simp


subsection \<open>The length and the ellipsis\<close>

text \<open>
  Claim C8, as the code has it. The excerpt of a parsed post has at most 153
  characters. When the image-stripped content is longer than 150 characters, the
  excerpt is a text of at most 150 characters followed by the three-character ellipsis.
  When it is not, nothing is appended: the excerpt is the image-stripped content,
  trimmed and with its tags removed, of at most 150 characters (which ends in three
  dots only when that text does).
\<close>

theorem excerpt_length:
  assumes "parse_post text fn = Inr p"
  shows "\<exists>c e. p ''content'' = Some c \<and> p ''excerpt'' = Some e \<and> length e \<le> 153 \<and>
           (150 < length (remove_imgs c) \<longrightarrow>
              (\<exists>b. e = b @ ''...'' \<and> length b \<le> 150)) \<and>
           (length (remove_imgs c) \<le> 150 \<longrightarrow>
              e = strip_tags (strip (remove_imgs c)) \<and> length e \<le> 150)"
proof -
  from parse_post_excerpt [OF assms] obtain c
    where c: "p ''content'' = Some c" "p ''excerpt'' = Some (make_excerpt c)" by blast
  let ?b = "strip_tags (strip (take 150 (remove_imgs c)))"
  have "length ?b \<le> length (strip (take 150 (remove_imgs c)))" by (rule length_strip_tags)
  also have "\<dots> \<le> length (take 150 (remove_imgs c))" by (rule length_strip)
  also have "\<dots> \<le> 150" by simp
  finally have b: "length ?b \<le> 150" .
  have m: "make_excerpt c = ?b @ (if 150 < length (remove_imgs c) then ''...'' else [])"
    by (simp add: make_excerpt_def Let_def)
  have "length (make_excerpt c) \<le> 153"
    unfolding m using b by (cases "150 < length (remove_imgs c)") simp_all
  moreover have "150 < length (remove_imgs c) \<longrightarrow>
      (\<exists>b. make_excerpt c = b @ ''...'' \<and> length b \<le> 150)"
    unfolding m using b by auto
  moreover have "length (remove_imgs c) \<le> 150 \<longrightarrow>
      make_excerpt c = strip_tags (strip (remove_imgs c)) \<and> length (make_excerpt c) \<le> 150"
  proof
    assume len: "length (remove_imgs c) \<le> 150"
    then have "take 150 (remove_imgs c) = remove_imgs c" by simp
    with len b m show "make_excerpt c = strip_tags (strip (remove_imgs c)) \<and>
      length (make_excerpt c) \<le> 150" by simp
  qed
  ultimately show ?thesis using c by blast
qed

theorem excerpt_length_witness:
  \<open>(\<exists>b. (case parse_post ''[Title]\<newline>T\<newline>[Date]\<newline>01/05/2024\<newline>[Category]\<newline>news\<newline>[Content]\<newline>Hello <img "x.png"> world, this is a long post that goes beyond one hundred fifty characters in total length to force truncation and ellipsis appending at the end of the string.'' ''a.txt'' of
           Inr p \<Rightarrow> p ''excerpt'' | Inl e \<Rightarrow> None) = Some (b @ ''...'') \<and> length b \<le> 150) \<and>
   (case parse_post ''[Title]\<newline>T\<newline>[Date]\<newline>01/05/2024\<newline>[Category]\<newline>news\<newline>[Content]\<newline>Hello <img "x.png"> world'' ''a.txt'' of
      Inr p \<Rightarrow> p ''excerpt'' | Inl e \<Rightarrow> None) = Some ''Hello  world''\<close>
proof -
  let ?long = \<open>''[Title]\<newline>T\<newline>[Date]\<newline>01/05/2024\<newline>[Category]\<newline>news\<newline>[Content]\<newline>Hello <img "x.png"> world, this is a long post that goes beyond one hundred fifty characters in total length to force truncation and ellipsis appending at the end of the string.''\<close>
  let ?lc = \<open>''Hello <img "x.png"> world, this is a long post that goes beyond one hundred fifty characters in total length to force truncation and ellipsis appending at the end of the string.''\<close>
  let ?short = \<open>''[Title]\<newline>T\<newline>[Date]\<newline>01/05/2024\<newline>[Category]\<newline>news\<newline>[Content]\<newline>Hello <img "x.png"> world''\<close>
  let ?sc = \<open>''Hello <img "x.png"> world''\<close>
  have "\<not> isl (parse_post ?long ''a.txt'')" by code_simp
  then obtain p where p: "parse_post ?long ''a.txt'' = Inr p"
    by (cases "parse_post ?long ''a.txt''") auto
  have "(case parse_post ?long ''a.txt'' of Inr p \<Rightarrow> p ''content'' | Inl e \<Rightarrow> None) = Some ?lc"
    by code_simp
  with p have pc: "p ''content'' = Some ?lc" by simp
  have pl: "150 < length (remove_imgs ?lc)" by code_simp
  from excerpt_length [OF p] pc pl
  have "\<exists>b. p ''excerpt'' = Some (b @ ''...'') \<and> length b \<le> 150" by auto
  with p have long: "\<exists>b. (case parse_post ?long ''a.txt'' of
      Inr p \<Rightarrow> p ''excerpt'' | Inl e \<Rightarrow> None) = Some (b @ ''...'') \<and> length b \<le> 150" by simp
  have "\<not> isl (parse_post ?short ''a.txt'')" by code_simp
  then obtain q where q: "parse_post ?short ''a.txt'' = Inr q"
    by (cases "parse_post ?short ''a.txt''") auto
  have "(case parse_post ?short ''a.txt'' of Inr p \<Rightarrow> p ''content'' | Inl e \<Rightarrow> None) = Some ?sc"
    by code_simp
  with q have qc: "q ''content'' = Some ?sc" by simp
  have ql: "length (remove_imgs ?sc) \<le> 150" by code_simp
  have qe: "strip_tags (strip (remove_imgs ?sc)) = ''Hello  world''" by code_simp
  from excerpt_length [OF q] qc ql qe have "q ''excerpt'' = Some ''Hello  world''" by auto
  with q long show ?thesis by simp
qed


text \<open>The claim as stated fails: a short content that ends in three dots gives an
  excerpt with that suffix, although the image-stripped content has 18 characters.\<close>

theorem ellipsis_suffix_counterexample:
  "(case parse_post ''[Title]\<newline>T\<newline>[Date]\<newline>01/05/2024\<newline>[Category]\<newline>news\<newline>[Content]\<newline>To be continued...'' ''a.txt'' of
      Inr p \<Rightarrow> p ''excerpt'' | Inl e \<Rightarrow> None) = Some (''To be continued'' @ ''...'') \<and>
   length (remove_imgs ''To be continued...'') = 18"
  by code_simp


section \<open>Dates that do not parse\<close>

lemma strptime_error: "strptime s = Inl e \<Longrightarrow> e = ValueError"
  by (auto simp: strptime_def split: option.splits if_splits prod.splits)

lemma parsed_post_date_key:
  assumes "parse_post text fn = Inr p" and "date_key p = Inl e"
  shows "e = ValueError"
proof -
  from parse_post_Inr [OF assms(1)] parse_sections_keys(2) [of "text" "fn"]
  obtain d where "p ''date'' = Some d" by auto
  with assms(2) show ?thesis by (auto simp: date_key_def getitem_def dest: strptime_error)
qed

lemma parsed_posts_mem:
  "p \<in> set (parsed_posts files) \<longleftrightarrow> (\<exists>name text. (name, text) \<in> set files \<and> parse_post text name = Inr p)"
  by (induction files rule: parsed_posts.induct) (auto split: sum.splits)

lemma sort_keys_fails:
  assumes "\<forall>p \<in> set posts. \<forall>e. date_key p = Inl e \<longrightarrow> e = ValueError"
    and "\<exists>p \<in> set posts. \<exists>e. date_key p = Inl e"
  shows "sort_keys posts = Inl ValueError"
  using assms
proof (induction posts)
  case Nil
  then show ?case by simp
next
  case (Cons p ps)
  show ?case
  proof (cases "date_key p")
    case (Inl e)
    with Cons.prems(1) show ?thesis by simp
  next
    case (Inr k)
    with Cons.prems have "\<exists>q \<in> set ps. \<exists>e. date_key q = Inl e" by auto
    with Cons have "sort_keys ps = Inl ValueError" by simp
    with Inr show ?thesis by simp
  qed
qed

text \<open>
  Claim C1, as the code has it. \<open>parse_post\<close> checks that the date is not empty and
  nothing else about it. The format is first read by the key of the sort in
  \<open>generate_indexes\<close>: when a file parses to a post whose date \<open>strptime\<close> rejects,
  \<open>main\<close> hands that post to \<open>generate_indexes\<close> with the others, and the call
  fails there with \<open>ValueError\<close>; no index is built.
\<close>

theorem malformed_date_fails_at_sort:
  assumes "(name, text) \<in> set files" and "parse_post text name = Inr p"
    and "p ''date'' = Some d" and "strptime d = Inl e"
  shows "main_indexes files = Some (Inl ValueError)"
proof -
  let ?posts = "parsed_posts files"
  from assms(1,2) have mem: "p \<in> set ?posts" by (auto simp: parsed_posts_mem)
  from assms(3,4) have "date_key p = Inl e" by (simp add: date_key_def getitem_def)
  with mem have "\<exists>p \<in> set ?posts. \<exists>e. date_key p = Inl e" by blast
  moreover have "\<forall>p \<in> set ?posts. \<forall>e. date_key p = Inl e \<longrightarrow> e = ValueError"
    by (auto simp: parsed_posts_mem dest: parsed_post_date_key)
  ultimately have "sort_keys ?posts = Inl ValueError" by (rule sort_keys_fails [rotated])
  moreover from mem have "?posts \<noteq> []" by auto
  ultimately show ?thesis by (simp add: main_indexes_def generate_indexes_def)
qed

text \<open>Two files, the second with an ISO date: both parse, the sort fails.\<close>

theorem malformed_date_fails_at_sort_witness:
  "main_indexes
     [(''a.txt'', ''[Title]\<newline>A\<newline>[Date]\<newline>01/05/2024\<newline>[Category]\<newline>news''),
      (''b.txt'', ''[Title]\<newline>B\<newline>[Date]\<newline>2024-01-05\<newline>[Category]\<newline>news'')] =
   Some (Inl ValueError)"
proof -
  let ?b = "''[Title]\<newline>B\<newline>[Date]\<newline>2024-01-05\<newline>[Category]\<newline>news''"
  have "\<not> isl (parse_post ?b ''b.txt'')" by code_simp
  then obtain p where p: "parse_post ?b ''b.txt'' = Inr p"
    by (cases "parse_post ?b ''b.txt''") auto
  have "(case parse_post ?b ''b.txt'' of Inr p \<Rightarrow> p ''date'' | Inl e \<Rightarrow> None) = Some ''2024-01-05''"
    by code_simp
  with p have d: "p ''date'' = Some ''2024-01-05''" by simp
  have s: "strptime ''2024-01-05'' = Inl ValueError" by code_simp
  show ?thesis
    by (rule malformed_date_fails_at_sort [OF _ p d s]) simp
qed

text \<open>The claim as stated fails: a post whose date is the word \<open>tomorrow\<close> is parsed
  without an error and reaches the sort.\<close>

theorem date_not_checked_by_parse_counterexample:
  "(case parse_post ''[Title]\<newline>T\<newline>[Date]\<newline>tomorrow\<newline>[Category]\<newline>news'' ''a.txt'' of
      Inr p \<Rightarrow> p ''date'' | Inl e \<Rightarrow> None) = Some ''tomorrow'' \<and>
   strptime ''tomorrow'' = Inl ValueError \<and>
   length (parsed_posts [(''a.txt'', ''[Title]\<newline>T\<newline>[Date]\<newline>tomorrow\<newline>[Category]\<newline>news'')]) = 1 \<and>
   main_indexes [(''a.txt'', ''[Title]\<newline>T\<newline>[Date]\<newline>tomorrow\<newline>[Category]\<newline>news'')] =
     Some (Inl ValueError)"
  by code_simp


section \<open>Image tags and the excerpt\<close>

text \<open>The matcher against the pattern read as a language: \<open><img\<close>, one or more
  whitespace characters, a quote, any characters but quotes, a quote, \<open>>\<close>.\<close>

lemma img_match_shape:
  assumes "img_match s = Some n"
  shows "\<exists>ws u r. s = ''<img'' @ ws @ CHR 0x22 # u @ CHR 0x22 # CHR ''>'' # r \<and> ws \<noteq> [] \<and>
           (\<forall>c \<in> set ws. isspace c) \<and> CHR 0x22 \<notin> set u \<and> n = length ws + length u + 7"
proof -
  define r0 where "r0 = drop 4 s"
  define ws where "ws = takeWhile isspace r0"
  define r1 where "r1 = dropWhile isspace r0"
  from assms have t4: "take 4 s = ''<img''"
    by (auto simp: img_match_def split: if_splits)
  with assms have ws: "ws \<noteq> []"
    by (auto simp: img_match_def Let_def ws_def r0_def split: if_splits)
  from assms t4 ws obtain r2 where r1: "r1 = CHR 0x22 # r2"
    by (auto simp: img_match_def Let_def ws_def r0_def r1_def split: if_splits list.splits)
  define u where "u = takeWhile (\<lambda>c. c \<noteq> CHR 0x22) r2"
  define r3 where "r3 = dropWhile (\<lambda>c. c \<noteq> CHR 0x22) r2"
  from assms t4 ws r1 have t2: "take 2 r3 = [CHR 0x22, CHR ''>'']"
    and n: "n = 4 + length ws + 1 + length u + 2"
    by (auto simp: img_match_def Let_def ws_def r0_def r1_def u_def r3_def split: if_splits)
  have "s = take 4 s @ r0" by (simp add: r0_def)
  moreover have "r0 = ws @ r1" by (simp add: ws_def r1_def)
  moreover have "r2 = u @ r3" by (simp add: u_def r3_def)
  moreover have "r3 = take 2 r3 @ drop 2 r3" by simp
  ultimately have "s = ''<img'' @ ws @ CHR 0x22 # u @ CHR 0x22 # CHR ''>'' # drop 2 r3"
    using t4 t2 r1 by (metis append_Cons append_Nil)
  moreover have "\<forall>c \<in> set ws. isspace c" unfolding ws_def by (auto dest: set_takeWhileD)
  moreover have "CHR 0x22 \<notin> set u" unfolding u_def by (auto dest: set_takeWhileD)
  ultimately show ?thesis using ws n by auto
qed

lemma img_match_of_shape:
  assumes "ws \<noteq> []" and "\<forall>c \<in> set ws. isspace c" and "CHR 0x22 \<notin> set u"
  shows "img_match (''<img'' @ ws @ CHR 0x22 # u @ CHR 0x22 # CHR ''>'' # r) =
           Some (length ws + length u + 7)"
proof -
  let ?s = "''<img'' @ ws @ CHR 0x22 # u @ CHR 0x22 # CHR ''>'' # r"
  have d: "drop 4 ?s = ws @ CHR 0x22 # u @ CHR 0x22 # CHR ''>'' # r" by simp
  from assms(2) have tw: "takeWhile isspace (ws @ CHR 0x22 # u @ CHR 0x22 # CHR ''>'' # r) = ws"
    and dw: "dropWhile isspace (ws @ CHR 0x22 # u @ CHR 0x22 # CHR ''>'' # r) =
             CHR 0x22 # u @ CHR 0x22 # CHR ''>'' # r"
    by (simp_all add: takeWhile_append2 dropWhile_append2 isspace_simps)
  from assms(3) have nq: "\<And>c. c \<in> set u \<Longrightarrow> c \<noteq> CHR 0x22" by auto
  have tu: "takeWhile (\<lambda>c. c \<noteq> CHR 0x22) (u @ CHR 0x22 # CHR ''>'' # r) = u"
    by (subst takeWhile_append2) (simp_all add: nq)
  have du: "dropWhile (\<lambda>c. c \<noteq> CHR 0x22) (u @ CHR 0x22 # CHR ''>'' # r) = CHR 0x22 # CHR ''>'' # r"
    by (subst dropWhile_append2) (simp_all add: nq)
  have "take 4 ?s = ''<img''" by simp
  then show ?thesis
    unfolding img_match_def d Let_def tw dw using assms(1) by (simp add: tu du)
qed

lemma img_match_append: "img_match s = Some n \<Longrightarrow> img_match (s @ t) = Some n"
proof -
  assume "img_match s = Some n"
  from img_match_shape [OF this] obtain ws u r where
    s: "s = ''<img'' @ ws @ CHR 0x22 # u @ CHR 0x22 # CHR ''>'' # r" and
    h: "ws \<noteq> []" "\<forall>c \<in> set ws. isspace c" "CHR 0x22 \<notin> set u" and n: "n = length ws + length u + 7"
    by blast
  from s have "s @ t = ''<img'' @ ws @ CHR 0x22 # u @ CHR 0x22 # CHR ''>'' # (r @ t)" by simp
  with img_match_of_shape [OF h, of "r @ t"] n show ?thesis by simp
qed

lemma img_match_restrict:
  assumes "img_match (s @ t) = Some n" and "n \<le> length s"
  shows "img_match s = Some n"
proof -
  from img_match_shape [OF assms(1)] obtain ws u r where
    st: "s @ t = ''<img'' @ ws @ CHR 0x22 # u @ CHR 0x22 # CHR ''>'' # r" and
    h: "ws \<noteq> []" "\<forall>c \<in> set ws. isspace c" "CHR 0x22 \<notin> set u" and n: "n = length ws + length u + 7"
    by blast
  let ?m = "''<img'' @ ws @ CHR 0x22 # u @ [CHR 0x22, CHR ''>'']"
  have len: "length ?m = n" using n by simp
  from st have "s @ t = ?m @ r" by simp
  with assms(2) len have "take n s = ?m"
    by (metis append_eq_conv_conj take_append diff_is_0_eq take_0 append_Nil2 le_refl)
  then have "s = ?m @ drop n s" by (metis append_take_drop_id)
  then have "s = ''<img'' @ ws @ CHR 0x22 # u @ CHR 0x22 # CHR ''>'' # drop n s" by simp
  with img_match_of_shape [OF h, of "drop n s"] n show ?thesis by simp
qed

lemma is_img_tag_iff:
  "is_img_tag t \<longleftrightarrow>
     (\<exists>ws u. t = ''<img'' @ ws @ CHR 0x22 # u @ [CHR 0x22, CHR ''>''] \<and> ws \<noteq> [] \<and>
              (\<forall>c \<in> set ws. isspace c) \<and> CHR 0x22 \<notin> set u)"
proof
  assume "is_img_tag t"
  then have m: "img_match t = Some (length t)" by (simp add: is_img_tag_def)
  from img_match_shape [OF m] obtain ws u r where
    t: "t = ''<img'' @ ws @ CHR 0x22 # u @ CHR 0x22 # CHR ''>'' # r" and
    h: "ws \<noteq> []" "\<forall>c \<in> set ws. isspace c" "CHR 0x22 \<notin> set u" and
    n: "length t = length ws + length u + 7"
    by blast
  from t have "length t = length ws + length u + 7 + length r" by simp
  with n have "r = []" by simp
  with t h show "\<exists>ws u. t = ''<img'' @ ws @ CHR 0x22 # u @ [CHR 0x22, CHR ''>''] \<and> ws \<noteq> [] \<and>
              (\<forall>c \<in> set ws. isspace c) \<and> CHR 0x22 \<notin> set u" by auto
next
  assume "\<exists>ws u. t = ''<img'' @ ws @ CHR 0x22 # u @ [CHR 0x22, CHR ''>''] \<and> ws \<noteq> [] \<and>
              (\<forall>c \<in> set ws. isspace c) \<and> CHR 0x22 \<notin> set u"
  then obtain ws u where t: "t = ''<img'' @ ws @ CHR 0x22 # u @ [CHR 0x22, CHR ''>'']" and
    h: "ws \<noteq> []" "\<forall>c \<in> set ws. isspace c" "CHR 0x22 \<notin> set u" by blast
  from img_match_of_shape [OF h, of "[]"] t show "is_img_tag t" by (simp add: is_img_tag_def)
qed

lemma img_match_pos: "img_match s = Some n \<Longrightarrow> 0 < n \<and> n \<le> length s"
  by (drule img_match_shape) auto

lemma remove_imgs_match: "img_match s = Some n \<Longrightarrow> remove_imgs s = remove_imgs (drop n s)"
  by (cases s) (auto dest: img_match_pos)

lemma remove_imgs_no_match: "img_match (c # cs) = None \<Longrightarrow> remove_imgs (c # cs) = c # remove_imgs cs"
  by simp

lemma drop_append_le: "k \<le> length xs \<Longrightarrow> drop k (xs @ ys) = drop k xs @ ys"
  by simp

lemma remove_imgs_around_tag:
  assumes "img_match (tag @ rest) = Some (length tag)"
    and "\<forall>a n. a < length pre \<and> img_match (drop a (pre @ tag @ rest)) = Some n \<longrightarrow> a + n \<le> length pre"
  shows "remove_imgs (pre @ tag @ rest) = remove_imgs pre @ remove_imgs rest"
  using assms(2)
proof (induction pre rule: remove_imgs.induct)
  case 1
  from remove_imgs_match [OF assms(1)] show ?case by simp
next
  case (2 c cs)
  let ?s = "(c # cs) @ tag @ rest"
  show ?case
  proof (cases "img_match ?s")
    case None
    have "img_match (c # cs) = None"
    proof (cases "img_match (c # cs)")
      case (Some n)
      from img_match_append [OF this, of "tag @ rest"] None show ?thesis by simp
    qed simp
    moreover have "remove_imgs (cs @ tag @ rest) = remove_imgs cs @ remove_imgs rest"
    proof (rule "2.IH"(1) [OF \<open>img_match (c # cs) = None\<close>], intro allI impI)
      fix a n
      assume "a < length cs \<and> img_match (drop a (cs @ tag @ rest)) = Some n"
      then have "Suc a < length (c # cs) \<and> img_match (drop (Suc a) ?s) = Some n" by auto
      with "2.prems" have "Suc a + n \<le> length (c # cs)" by blast
      then show "a + n \<le> length cs" by simp
    qed
    ultimately show ?thesis using None by simp
  next
    case (Some n)
    with "2.prems" have n: "n \<le> length (c # cs)" by force
    from img_match_restrict [OF Some n] have m: "img_match (c # cs) = Some n" .
    have "remove_imgs (drop n (c # cs) @ tag @ rest) =
          remove_imgs (drop n (c # cs)) @ remove_imgs rest"
    proof (rule "2.IH"(2) [OF m], intro allI impI)
      fix a k
      assume a: "a < length (drop n (c # cs)) \<and>
        img_match (drop a (drop n (c # cs) @ tag @ rest)) = Some k"
      then have len: "a + n \<le> length (c # cs)" and lt: "a + n < length (c # cs)"
        and la: "a \<le> length (drop n (c # cs))" by auto
      have "drop a (drop n (c # cs) @ tag @ rest) = drop a (drop n (c # cs)) @ tag @ rest"
        using la by (rule drop_append_le)
      also have "\<dots> = drop (a + n) (c # cs) @ tag @ rest" by (simp only: drop_drop)
      also have "\<dots> = drop (a + n) ?s" using len by (rule drop_append_le [symmetric])
      finally have "drop a (drop n (c # cs) @ tag @ rest) = drop (a + n) ?s" .
      with a lt have "a + n < length (c # cs) \<and> img_match (drop (a + n) ?s) = Some k"
        by simp
      with "2.prems" have "a + n + k \<le> length (c # cs)" by blast
      then show "a + k \<le> length (drop n (c # cs))" by simp
    qed
    moreover from n have "drop n ?s = drop n (c # cs) @ tag @ rest" by (rule drop_append_le)
    ultimately show ?thesis
      using remove_imgs_match [OF Some] remove_imgs_match [OF m] by simp
  qed
qed

lemma set_strip_tags: "set (strip_tags s) \<subseteq> set s"
proof (induction s rule: strip_tags.induct)
  case 1
  then show ?case by simp
next
  case (2 c cs)
  show ?case
  proof (cases "tag_match (c # cs)")
    case None
    with 2 show ?thesis by auto
  next
    case (Some n)
    with 2 have "set (strip_tags (c # cs)) \<subseteq> set (drop n (c # cs))" by simp
    then show ?thesis using set_drop_subset by fastforce
  qed
qed

lemma tag_match_None_lt: "tag_match (CHR ''<'' # cs) = None \<Longrightarrow> CHR ''>'' \<notin> set cs"
  by (auto simp: tag_match_def Let_def dropWhile_eq_Nil_conv split: if_splits)

lemma has_tag_Cons: "has_tag (x # s) \<longleftrightarrow> (x = CHR ''<'' \<and> CHR ''>'' \<in> set s) \<or> has_tag s"
proof
  assume "has_tag (x # s)"
  then obtain a b c where e: "x # s = a @ CHR ''<'' # b @ CHR ''>'' # c" by (auto simp: has_tag_def)
  show "(x = CHR ''<'' \<and> CHR ''>'' \<in> set s) \<or> has_tag s"
  proof (cases a)
    case Nil
    with e show ?thesis by auto
  next
    case (Cons y a')
    with e have "s = a' @ CHR ''<'' # b @ CHR ''>'' # c" by simp
    then show ?thesis by (auto simp: has_tag_def)
  qed
next
  assume "(x = CHR ''<'' \<and> CHR ''>'' \<in> set s) \<or> has_tag s"
  then show "has_tag (x # s)"
  proof
    assume a: "x = CHR ''<'' \<and> CHR ''>'' \<in> set s"
    then obtain b c where "s = b @ CHR ''>'' # c" by (auto dest: split_list)
    with a have "x # s = [] @ CHR ''<'' # b @ CHR ''>'' # c" by simp
    then show ?thesis unfolding has_tag_def by blast
  next
    assume "has_tag s"
    then obtain a b c where "s = a @ CHR ''<'' # b @ CHR ''>'' # c" by (auto simp: has_tag_def)
    then have "x # s = (x # a) @ CHR ''<'' # b @ CHR ''>'' # c" by simp
    then show ?thesis unfolding has_tag_def by blast
  qed
qed

lemma has_tag_Nil: "\<not> has_tag []"
  by (simp add: has_tag_def)

lemma strip_tags_no_tag: "\<not> has_tag (strip_tags s)"
proof (induction s rule: strip_tags.induct)
  case 1
  then show ?case by (simp add: has_tag_Nil)
next
  case (2 c cs)
  show ?case
  proof (cases "tag_match (c # cs)")
    case (Some n)
    with 2 show ?thesis by simp
  next
    case None
    with 2 have ih: "\<not> has_tag (strip_tags cs)" by simp
    have "\<not> (c = CHR ''<'' \<and> CHR ''>'' \<in> set (strip_tags cs))"
      using None tag_match_None_lt set_strip_tags by blast
    with ih None show ?thesis by (simp add: has_tag_Cons)
  qed
qed

lemma has_tag_ellipsis: "has_tag (s @ ''...'') \<longleftrightarrow> has_tag s"
  by (induction s) (simp_all add: has_tag_Cons has_tag_Nil)

lemma img_tag_has_tag: "is_img_tag t \<Longrightarrow> has_tag (x @ t @ y)"
proof -
  assume "is_img_tag t"
  then obtain ws u where "t = ''<img'' @ ws @ CHR 0x22 # u @ [CHR 0x22, CHR ''>'']"
    by (auto simp: is_img_tag_iff)
  then have "x @ t @ y = x @ CHR ''<'' # (''img'' @ ws @ CHR 0x22 # u @ [CHR 0x22]) @ CHR ''>'' # y"
    by simp
  then show ?thesis unfolding has_tag_def by blast
qed

lemma parse_post_content_excerpt:
  assumes "parse_post text fn = Inr p" and "p ''content'' = Some c"
  shows "p ''excerpt'' = Some (make_excerpt c)"
  using parse_post_excerpt [OF assms(1)] assms(2) by auto

text \<open>
  Claim C9, as the code has it. Take a substring of the content of a parsed post that
  matches the image pattern and that no match beginning before it runs into. It is
  removed whole from the full content before the cut at 150 characters: the excerpt is
  computed from the image-stripped text before it followed by the image-stripped text
  after it, so nothing of the tag is left, also when the tag lies across the 150th
  character. And no substring of the final excerpt is an image tag. (The scan removes
  the leftmost matches, none overlapping; a matching substring that begins inside an
  earlier match is not removed as a whole.)
\<close>

theorem image_tag_removed_whole:
  assumes "parse_post text fn = Inr p" and "p ''content'' = Some (pre @ tag @ rest)"
    and "is_img_tag tag"
    and "\<forall>a n. a < length pre \<and> img_match (drop a (pre @ tag @ rest)) = Some n \<longrightarrow>
           a + n \<le> length pre"
  shows "\<exists>e. p ''excerpt'' = Some e \<and>
           e = strip_tags (strip (take 150 (remove_imgs pre @ remove_imgs rest))) @
               (if 150 < length (remove_imgs pre @ remove_imgs rest) then ''...'' else []) \<and>
           (\<forall>x t y. e = x @ t @ y \<longrightarrow> \<not> is_img_tag t)"
proof -
  let ?s = "remove_imgs pre @ remove_imgs rest"
  let ?e = "strip_tags (strip (take 150 ?s)) @ (if 150 < length ?s then ''...'' else [])"
  from assms(3) have "img_match tag = Some (length tag)" by (simp add: is_img_tag_def)
  then have "img_match (tag @ rest) = Some (length tag)" by (rule img_match_append)
  from remove_imgs_around_tag [OF this assms(4)]
  have "make_excerpt (pre @ tag @ rest) = ?e" by (simp add: make_excerpt_def Let_def)
  with parse_post_content_excerpt [OF assms(1,2)] have e: "p ''excerpt'' = Some ?e" by simp
  have "\<not> has_tag ?e" using strip_tags_no_tag by (simp add: has_tag_ellipsis)
  then have "\<forall>x t y. ?e = x @ t @ y \<longrightarrow> \<not> is_img_tag t"
    using img_tag_has_tag by metis
  with e show ?thesis by blast
qed

text \<open>A content with an image tag near its start and a second one from character 146
  to character 166.\<close>

theorem image_tag_removed_whole_witness:
  \<open>(case parse_post ''[Title]\<newline>T\<newline>[Date]\<newline>01/05/2024\<newline>[Category]\<newline>news\<newline>[Content]\<newline>Intro <img "a.png"> and then a fairly long sentence that keeps going so that the next picture starts shortly before the one hundred fiftieth sign <img "straddle.png"> and the tail follows the picture'' ''a.txt'' of
      Inr p \<Rightarrow> p ''excerpt'' | Inl e \<Rightarrow> None) =
   Some ''Intro  and then a fairly long sentence that keeps going so that the next picture starts shortly before the one hundred fiftieth sign  and the tail fol...''\<close>
proof -
  define input where \<open>input = ''[Title]\<newline>T\<newline>[Date]\<newline>01/05/2024\<newline>[Category]\<newline>news\<newline>[Content]\<newline>Intro <img "a.png"> and then a fairly long sentence that keeps going so that the next picture starts shortly before the one hundred fiftieth sign <img "straddle.png"> and the tail follows the picture''\<close>
  define pre where \<open>pre = ''Intro <img "a.png"> and then a fairly long sentence that keeps going so that the next picture starts shortly before the one hundred fiftieth sign ''\<close>
  define tag where \<open>tag = ''<img "straddle.png">''\<close>
  define rest where \<open>rest = '' and the tail follows the picture''\<close>
  have "\<not> isl (parse_post input ''a.txt'')" unfolding input_def by code_simp
  then obtain p where p: "parse_post input ''a.txt'' = Inr p"
    by (cases "parse_post input ''a.txt''") auto
  have "(case parse_post input ''a.txt'' of Inr p \<Rightarrow> p ''content'' | Inl e \<Rightarrow> None) =
          Some (pre @ tag @ rest)"
    unfolding input_def pre_def tag_def rest_def by code_simp
  with p have c: "p ''content'' = Some (pre @ tag @ rest)" by simp
  have t: "is_img_tag tag" unfolding tag_def by code_simp
  have "list_all (\<lambda>a. case img_match (drop a (pre @ tag @ rest)) of
                        None \<Rightarrow> True | Some n \<Rightarrow> a + n \<le> length pre) [0..<length pre]"
    unfolding pre_def tag_def rest_def by code_simp
  then have h: "\<forall>a n. a < length pre \<and> img_match (drop a (pre @ tag @ rest)) = Some n \<longrightarrow>
      a + n \<le> length pre"
    by (auto simp only: list_all_iff set_upt atLeastLessThan_iff split: option.splits)
  have e: \<open>strip_tags (strip (take 150 (remove_imgs pre @ remove_imgs rest))) @
      (if 150 < length (remove_imgs pre @ remove_imgs rest) then ''...'' else []) =
      ''Intro  and then a fairly long sentence that keeps going so that the next picture starts shortly before the one hundred fiftieth sign  and the tail fol...''\<close>
    unfolding pre_def rest_def by code_simp
  from image_tag_removed_whole [OF p c t h] e
  have \<open>p ''excerpt'' = Some ''Intro  and then a fairly long sentence that keeps going so that the next picture starts shortly before the one hundred fiftieth sign  and the tail fol...''\<close> by auto
  with p show ?thesis unfolding input_def by simp
qed

text \<open>The claim as stated fails: the content below is \<open><img "\<close> followed by a
  string that matches the image pattern; the scan removes the match that begins at the
  first character, and the last three characters of the matching substring are the
  excerpt.\<close>

theorem overlapping_image_tag_counterexample:
  \<open>(case parse_post ''[Title]\<newline>T\<newline>[Date]\<newline>01/05/2024\<newline>[Category]\<newline>news\<newline>[Content]\<newline><img "<img ">x">'' ''a.txt'' of
      Inr p \<Rightarrow> (p ''content'', p ''excerpt'') | Inl e \<Rightarrow> (None, None)) =
     (Some (''<img "'' @ ''<img ">x">''), Some ''x">'') \<and>
   is_img_tag ''<img ">x">''\<close>
  by code_simp


section \<open>The index builder on valid posts\<close>

subsection \<open>Grouping\<close>

lemma keys_dict_append:
  "map fst (dict_append k v m) = (if k \<in> fst ` set m then map fst m else map fst m @ [k])"
proof (induction m)
  case Nil
  then show ?case by simp
next
  case (Cons x m)
  obtain k' vs where x: "x = (k', vs)" by (cases x)
  show ?case
  proof (cases "k' = k")
    case True
    with x show ?thesis by simp
  next
    case False
    with x Cons show ?thesis by (cases "k \<in> fst ` set m") simp_all
  qed
qed

lemma keyset_dict_append: "fst ` set (dict_append k v m) = insert k (fst ` set m)"
proof -
  have "fst ` set (dict_append k v m) = set (map fst (dict_append k v m))" by simp
  also have "\<dots> = insert k (fst ` set m)" unfolding keys_dict_append by auto
  finally show ?thesis .
qed

lemma entries_dict_append: "mset (entries (dict_append k v m)) = mset (entries m) + {#(k, v)#}"
  by (induction m) (auto simp: entries_def)

lemma map_of_dict_append:
  "map_of (dict_append k v m) k' =
     (if k' = k then Some ((case map_of m k of None \<Rightarrow> [] | Some vs \<Rightarrow> vs) @ [v]) else map_of m k')"
  by (induction m) auto

lemma entries_group_all: "mset (entries (group_all kvs m)) = mset (entries m) + mset kvs"
  by (induction kvs m rule: group_all.induct) (simp_all add: entries_dict_append)

lemma distinct_dict_append: "distinct (map fst m) \<Longrightarrow> distinct (map fst (dict_append k v m))"
  by (simp add: keys_dict_append)

lemma distinct_group_all: "distinct (map fst m) \<Longrightarrow> distinct (map fst (group_all kvs m))"
  by (induction kvs m rule: group_all.induct) (simp_all add: distinct_dict_append)

lemma map_of_group_all:
  "map_of (group_all kvs m) k =
     (if k \<in> fst ` set m \<union> fst ` set kvs
      then Some ((case map_of m k of None \<Rightarrow> [] | Some vs \<Rightarrow> vs) @
                 map snd (filter (\<lambda>kv. fst kv = k) kvs))
      else None)"
proof (induction kvs m rule: group_all.induct)
  case (1 m)
  then show ?case by (auto simp: map_of_eq_None_iff split: option.splits)
next
  case (2 k' v kvs m)
  have "fst ` set (dict_append k' v m) = insert k' (fst ` set m)"
    by (rule keyset_dict_append)
  with 2 show ?case by (auto simp: map_of_dict_append split: option.splits)
qed

lemma group_all_values:
  assumes "(k, vs) \<in> set (group_all kvs [])"
  shows "vs = map snd (filter (\<lambda>kv. fst kv = k) kvs)"
proof -
  have "distinct (map fst (group_all kvs ([] :: ('a \<times> 'b list) list)))"
    by (rule distinct_group_all) simp
  with assms have "map_of (group_all kvs []) k = Some vs" by simp
  then show ?thesis by (simp add: map_of_group_all split: if_splits)
qed

lemma sorted_keys_group_all:
  assumes "sorted_wrt R (map fst m)"
    and "\<forall>a \<in> fst ` set m. \<forall>b \<in> fst ` set kvs. R a b"
    and "sorted_wrt R (map fst kvs)"
  shows "sorted_wrt R (map fst (group_all kvs m))"
  using assms
proof (induction kvs m rule: group_all.induct)
  case (1 m)
  then show ?case by simp
next
  case (2 k v kvs m)
  have keys: "fst ` set (dict_append k v m) = insert k (fst ` set m)"
    by (rule keyset_dict_append)
  from "2.prems" have "sorted_wrt R (map fst (dict_append k v m))"
    by (auto simp: keys_dict_append sorted_wrt_append)
  moreover from "2.prems" have "\<forall>a \<in> fst ` set (dict_append k v m). \<forall>b \<in> fst ` set kvs. R a b"
    unfolding keys by auto
  moreover from "2.prems" have "sorted_wrt R (map fst kvs)" by simp
  ultimately show ?case using "2.IH" by simp
qed

lemma keys_group_all: "fst ` set (group_all kvs m) = fst ` set m \<union> fst ` set kvs"
proof (induction kvs m rule: group_all.induct)
  case (1 m)
  then show ?case by simp
next
  case (2 k v kvs m)
  have "fst ` set (dict_append k v m) = insert k (fst ` set m)"
    by (rule keyset_dict_append)
  with 2 show ?case by auto
qed

subsection \<open>The sort and the loops\<close>

lemma valid_post_getitem:
  assumes "valid_post p"
    and "k \<in> set [''path'', ''title'', ''excerpt'', ''thumbnail'', ''category'', ''date'']"
  shows "getitem p k = Inr (the_field p k)" and "p k = Some (the_field p k)"
proof -
  from assms have "p k \<noteq> None" unfolding valid_post_def list_all_iff by blast
  then show "getitem p k = Inr (the_field p k)" and "p k = Some (the_field p k)"
    by (auto simp: getitem_def the_field_def)
qed

lemma valid_post_key:
  assumes "valid_post p"
  shows "date_key p = Inr (the_key p)" and "strptime (the_field p ''date'') = Inr (the_key p)"
proof -
  from assms obtain d k where "p ''date'' = Some d" "strptime d = Inr k"
    by (auto simp: valid_post_def split: option.splits sum.splits)
  then show "date_key p = Inr (the_key p)" and "strptime (the_field p ''date'') = Inr (the_key p)"
    by (simp_all add: date_key_def getitem_def the_key_def the_field_def)
qed

lemma valid_post_summaries:
  assumes "valid_post p"
  shows "chrono_summary_of p = Inr (snd (chrono_pair p))"
    and "catalog_summary_of p = Inr (snd (catalog_pair p))"
  using assms
  by (simp_all add: chrono_summary_of_def catalog_summary_of_def chrono_pair_def catalog_pair_def
        valid_post_getitem)

lemma sort_keys_valid: "\<forall>p \<in> set ps. valid_post p \<Longrightarrow> sort_keys ps = Inr (map the_key ps)"
  by (induction ps) (simp_all add: valid_post_key)

lemma chrono_loop_valid:
  "\<forall>p \<in> set ps. valid_post p \<Longrightarrow> chrono_loop ps m = Inr (group_all (map chrono_pair ps) m)"
proof (induction ps arbitrary: m)
  case Nil
  then show ?case by simp
next
  case (Cons p ps)
  then have v: "valid_post p" by simp
  have "chrono_pair p = (the_field p ''date'', snd (chrono_pair p))" by (simp add: chrono_pair_def)
  then have "group_all (map chrono_pair (p # ps)) m =
      group_all (map chrono_pair ps) (dict_append (the_field p ''date'') (snd (chrono_pair p)) m)"
    by (metis group_all.simps(2) list.simps(9))
  with Cons v show ?case by (simp add: valid_post_getitem valid_post_summaries)
qed

lemma catalog_loop_valid:
  "\<forall>p \<in> set ps. valid_post p \<Longrightarrow> catalog_loop ps m = Inr (group_all (map catalog_pair ps) m)"
proof (induction ps arbitrary: m)
  case Nil
  then show ?case by simp
next
  case (Cons p ps)
  then have v: "valid_post p" by simp
  have "catalog_pair p = (the_field p ''category'', snd (catalog_pair p))"
    by (simp add: catalog_pair_def)
  then have "group_all (map catalog_pair (p # ps)) m =
      group_all (map catalog_pair ps) (dict_append (the_field p ''category'') (snd (catalog_pair p)) m)"
    by (metis group_all.simps(2) list.simps(9))
  with Cons v show ?case by (simp add: valid_post_getitem valid_post_summaries)
qed

lemma insort_key_map: "insort_key f (h x) (map h xs) = map h (insort_key (\<lambda>x. f (h x)) x xs)"
  by (induction xs) simp_all

lemma sort_key_map: "sort_key f (map h xs) = map h (sort_key (\<lambda>x. f (h x)) xs)"
  by (induction xs) (simp_all add: insort_key_map)

lemma sorted_posts_of_keys:
  "sorted_posts_of (map the_key ps) ps = sorted_reverse the_key ps"
proof -
  let ?h = "\<lambda>p. (the_key p, p)"
  have z: "zip (map the_key ps) ps = map ?h ps"
    by (induction ps) simp_all
  have "sort_key fst (rev (map ?h ps)) = sort_key fst (map ?h (rev ps))"
    by (simp add: rev_map)
  also have "\<dots> = map ?h (sort_key (\<lambda>p. fst (?h p)) (rev ps))" by (rule sort_key_map)
  finally have "sort_key fst (rev (map ?h ps)) = map ?h (sort_key the_key (rev ps))" by simp
  then have "map snd (rev (sort_key fst (rev (map ?h ps)))) = rev (sort_key the_key (rev ps))"
    by (simp add: rev_map o_def)
  with z show ?thesis by (simp add: sorted_posts_of_def sorted_reverse_def)
qed

lemma mset_sorted_reverse: "mset (sorted_reverse f xs) = mset xs"
  by (simp add: sorted_reverse_def)

lemma set_sorted_reverse: "set (sorted_reverse f xs) = set xs"
  by (simp add: sorted_reverse_def)

lemma sorted_reverse_descending: "sorted_wrt (\<lambda>x y. f y \<le> f x) (sorted_reverse f xs)"
proof -
  have "sorted (map f (sort_key f (rev xs)))" by simp
  then have "sorted_wrt (\<lambda>x y. f x \<le> f y) (sort_key f (rev xs))" by (simp add: sorted_map)
  then show ?thesis by (simp add: sorted_reverse_def sorted_wrt_rev)
qed

lemma sorted_reverse_stable:
  "filter (\<lambda>y. f y = k) (sorted_reverse f xs) = filter (\<lambda>y. f y = k) xs"
  by (simp add: sorted_reverse_def rev_filter [symmetric] sort_key_stable)

lemma generate_indexes_valid:
  assumes "\<forall>p \<in> set ps. valid_post p"
  shows "generate_indexes ps =
     Inr (map (\<lambda>(date, posts). \<lparr>ce_date = date, ce_posts = posts\<rparr>)
            (group_all (map chrono_pair (sorted_reverse the_key ps)) []),
          group_all (map catalog_pair (sorted_reverse the_key ps)) [])"
proof -
  from assms have "\<forall>p \<in> set (sorted_reverse the_key ps). valid_post p"
    by (simp add: set_sorted_reverse)
  then show ?thesis
    using assms
    by (simp add: generate_indexes_def Let_def sort_keys_valid sorted_posts_of_keys
          chrono_loop_valid catalog_loop_valid)
qed

lemma chrono_views_entries:
  "chrono_views (map (\<lambda>(date, posts). \<lparr>ce_date = date, ce_posts = posts\<rparr>) m) =
   map (\<lambda>(d, s). [d, ch_path s, ch_title s, ch_excerpt s, ch_thumbnail s, ch_category s])
     (entries m)"
  by (induction m) (auto simp: chrono_views_def entries_def)

lemma catalog_views_entries:
  "catalog_views m =
   map (\<lambda>(c, s). [ca_date s, ca_path s, ca_title s, ca_excerpt s, ca_thumbnail s, c])
     (entries m)"
  by (induction m) (auto simp: catalog_views_def entries_def)

lemma valid_post_view:
  assumes "valid_post p"
  shows "post_view p =
     map Some ((\<lambda>(d, s). [d, ch_path s, ch_title s, ch_excerpt s, ch_thumbnail s, ch_category s])
                 (chrono_pair p))"
    and "post_view p =
     map Some ((\<lambda>(c, s). [ca_date s, ca_path s, ca_title s, ca_excerpt s, ca_thumbnail s, c])
                 (catalog_pair p))"
  using assms by (simp_all add: post_view_def chrono_pair_def catalog_pair_def valid_post_getitem)

lemma views_of_group:
  assumes "\<forall>p \<in> set ps. valid_post p" and "\<forall>p \<in> set ps. post_view p = map Some (cv (pair p))"
  shows "mset (map (map Some) (map cv (entries (group_all (map pair (sorted_reverse the_key ps)) [])))) =
         mset (map post_view ps)"
proof -
  let ?sp = "sorted_reverse the_key ps"
  have "mset (map (map Some) (map cv (entries (group_all (map pair ?sp) [])))) =
        image_mset (\<lambda>kv. map Some (cv kv)) (mset (entries (group_all (map pair ?sp) [])))"
    by (simp add: o_def)
  also have "\<dots> = image_mset (\<lambda>kv. map Some (cv kv)) (mset (map pair ?sp))"
  proof -
    have "entries ([] :: ('c \<times> 'b list) list) = []" by (simp add: entries_def)
    then show ?thesis by (simp add: entries_group_all)
  qed
  also have "\<dots> = image_mset (\<lambda>p. map Some (cv (pair p))) (mset ?sp)"
    by (simp add: multiset.map_comp o_def)
  also have "\<dots> = image_mset (\<lambda>p. map Some (cv (pair p))) (mset ps)"
    by (simp add: mset_sorted_reverse)
  also have "\<dots> = image_mset post_view (mset ps)"
    using assms(2) by (intro image_mset_cong) simp
  finally show ?thesis by simp
qed

lemma chrono_keys_descending:
  assumes "\<forall>p \<in> set ps. valid_post p"
  shows "sorted_wrt newer_or_same (map fst (group_all (map chrono_pair (sorted_reverse the_key ps)) []))"
proof -
  let ?sp = "sorted_reverse the_key ps"
  have d: "fst (chrono_pair p) = the_field p ''date''" for p by (simp add: chrono_pair_def)
  have "sorted_wrt (\<lambda>p q. the_key q \<le> the_key p) ?sp" by (rule sorted_reverse_descending)
  moreover have "newer_or_same (the_field p ''date'') (the_field q ''date'')"
    if "p \<in> set ?sp" "q \<in> set ?sp" "the_key q \<le> the_key p" for p q
    using that assms by (simp add: set_sorted_reverse newer_or_same_def valid_post_key)
  ultimately have "sorted_wrt (\<lambda>p q. newer_or_same (the_field p ''date'') (the_field q ''date'')) ?sp"
    by (rule sorted_wrt_mono_rel [rotated]) blast
  then have "sorted_wrt newer_or_same (map fst (map chrono_pair ?sp))"
    by (simp add: sorted_wrt_map d)
  then show ?thesis by (intro sorted_keys_group_all) simp_all
qed

lemma sorted_wrt_distinct_strict:
  assumes "sorted_wrt R xs" and "distinct xs"
    and "\<And>x y. x \<in> set xs \<Longrightarrow> y \<in> set xs \<Longrightarrow> x \<noteq> y \<Longrightarrow> R x y \<Longrightarrow> S x y"
  shows "sorted_wrt S xs"
  using assms by (induction xs) auto

lemma entry_posts_input_order:
  assumes "\<forall>p \<in> set ps. valid_post p"
    and "(d, ss) \<in> set (group_all (map chrono_pair (sorted_reverse the_key ps)) [])"
  shows "map Inr ss = map chrono_summary_of (filter (\<lambda>p. p ''date'' = Some d) ps)"
proof -
  let ?sp = "sorted_reverse the_key ps"
  have date: "p ''date'' = Some d \<longleftrightarrow> the_field p ''date'' = d" if "p \<in> set ps" for p
    using that assms(1) valid_post_getitem(2) [of p "''date''"] by auto
  from assms(2) have "d \<in> fst ` set (group_all (map chrono_pair ?sp) [])" by force
  then have "d \<in> fst ` set (map chrono_pair ?sp)" by (simp add: keys_group_all)
  then obtain p0 where p0: "p0 \<in> set ps" "the_field p0 ''date'' = d"
    by (auto simp: set_sorted_reverse chrono_pair_def)
  have key: "the_key p = the_key p0" if "p \<in> set ps" "the_field p ''date'' = d" for p
  proof -
    from that assms(1) have "strptime d = Inr (the_key p)" by (auto dest: valid_post_key(2))
    moreover from p0 assms(1) have "strptime d = Inr (the_key p0)" by (auto dest: valid_post_key(2))
    ultimately show ?thesis by simp
  qed
  let ?D = "\<lambda>p. the_field p ''date'' = d" and ?K = "\<lambda>p. the_key p = the_key p0"
  have "filter ?D ?sp = filter ?D (filter ?K ?sp)"
    using key by (auto simp: set_sorted_reverse intro!: filter_cong)
  also have "\<dots> = filter ?D (filter ?K ps)" by (simp only: sorted_reverse_stable)
  also have "\<dots> = filter ?D ps" using key by (auto intro!: filter_cong)
  finally have f: "filter ?D ?sp = filter ?D ps" .
  from group_all_values [OF assms(2)]
  have "ss = map snd (filter (\<lambda>kv. fst kv = d) (map chrono_pair ?sp))" .
  also have "\<dots> = map (\<lambda>p. snd (chrono_pair p)) (filter ?D ?sp)"
    by (simp add: filter_map o_def chrono_pair_def)
  finally have "ss = map (\<lambda>p. snd (chrono_pair p)) (filter ?D ps)" by (simp only: f)
  moreover have "filter ?D ps = filter (\<lambda>p. p ''date'' = Some d) ps"
    using date by (auto intro!: filter_cong)
  ultimately have "ss = map (\<lambda>p. snd (chrono_pair p)) (filter (\<lambda>p. p ''date'' = Some d) ps)"
    by simp
  then show ?thesis using assms(1) by (simp add: valid_post_summaries)
qed

lemma ce_date_of_group:
  "map ce_date (map (\<lambda>(date, posts). \<lparr>ce_date = date, ce_posts = posts\<rparr>) m) = map fst m"
  by (induction m) auto

subsection \<open>Order and content of the two indexes\<close>

text \<open>
  Claim C5, as the code has it. For every sequence of valid posts the index builder
  returns both indexes. The entries of the chronological index are in descending order
  of calendar date, equal dates allowed, and no two entries have the same date string.
  The order is strict when posts with the same calendar date always have the same date
  string. The posts of all chronological entries, the posts of all catalog entries and
  the input posts are the same multiset: no post is created, dropped or duplicated.
  (The entries are grouped by the date string and sorted by the parsed date, and
  \<open>strptime\<close> accepts a month and a day with or without a leading zero.)
\<close>

theorem chrono_order_and_membership:
  assumes "\<forall>p \<in> set posts. valid_post p"
  shows "\<exists>chrono catalog. generate_indexes posts = Inr (chrono, catalog) \<and>
           sorted_wrt newer_or_same (map ce_date chrono) \<and>
           distinct (map ce_date chrono) \<and>
           ((\<forall>p \<in> set posts. \<forall>q \<in> set posts. date_key p = date_key q \<longrightarrow> p ''date'' = q ''date'') \<longrightarrow>
              sorted_wrt newer (map ce_date chrono)) \<and>
           mset (map (map Some) (chrono_views chrono)) = mset (map post_view posts) \<and>
           mset (map (map Some) (catalog_views catalog)) = mset (map post_view posts)"
proof -
  let ?sp = "sorted_reverse the_key posts"
  let ?m = "group_all (map chrono_pair ?sp) []"
  let ?chrono = "map (\<lambda>(date, posts). \<lparr>ce_date = date, ce_posts = posts\<rparr>) ?m"
  let ?catalog = "group_all (map catalog_pair ?sp) []"
  have g: "generate_indexes posts = Inr (?chrono, ?catalog)"
    using assms by (rule generate_indexes_valid)
  have s: "sorted_wrt newer_or_same (map fst ?m)" using assms by (rule chrono_keys_descending)
  have d: "distinct (map fst ?m)" by (rule distinct_group_all) simp
  have strict: "sorted_wrt newer (map fst ?m)"
    if inj: "\<forall>p \<in> set posts. \<forall>q \<in> set posts. date_key p = date_key q \<longrightarrow> p ''date'' = q ''date''"
    using s d
  proof (rule sorted_wrt_distinct_strict)
    fix x y
    assume "x \<in> set (map fst ?m)" "y \<in> set (map fst ?m)" and ne: "x \<noteq> y"
      and le: "newer_or_same x y"
    then have "x \<in> fst ` set (map chrono_pair ?sp)" "y \<in> fst ` set (map chrono_pair ?sp)"
      by (simp_all add: keys_group_all)
    then obtain p q where p: "p \<in> set posts" "the_field p ''date'' = x"
      and q: "q \<in> set posts" "the_field q ''date'' = y"
      by (auto simp: set_sorted_reverse chrono_pair_def)
    from p q assms have kx: "strptime x = Inr (the_key p)" and ky: "strptime y = Inr (the_key q)"
      by (auto dest: valid_post_key(2))
    from p q assms have dp: "p ''date'' = Some x" and dq: "q ''date'' = Some y"
      using valid_post_getitem(2) [of _ "''date''"] by auto
    have "the_key p \<noteq> the_key q"
    proof
      assume "the_key p = the_key q"
      with p q assms have "date_key p = date_key q" by (simp add: valid_post_key(1))
      with inj p q have "p ''date'' = q ''date''" by blast
      with dp dq ne show False by simp
    qed
    with le kx ky show "newer x y" by (simp add: newer_or_same_def newer_def)
  qed
  have v1: "mset (map (map Some) (chrono_views ?chrono)) = mset (map post_view posts)"
    unfolding chrono_views_entries using assms
    by (intro views_of_group) (simp_all add: valid_post_view(1))
  have v2: "mset (map (map Some) (catalog_views ?catalog)) = mset (map post_view posts)"
    unfolding catalog_views_entries using assms
    by (intro views_of_group) (simp_all add: valid_post_view(2))
  have cd: "map ce_date ?chrono = map fst ?m" by (rule ce_date_of_group)
  from s have s': "sorted_wrt newer_or_same (map ce_date ?chrono)" by (simp only: cd)
  from d have d': "distinct (map ce_date ?chrono)" by (simp only: cd)
  from strict have strict': "(\<forall>p \<in> set posts. \<forall>q \<in> set posts. date_key p = date_key q \<longrightarrow>
      p ''date'' = q ''date'') \<longrightarrow> sorted_wrt newer (map ce_date ?chrono)"
    by (simp only: cd) blast
  from g s' d' strict' v1 v2 show ?thesis by blast
qed

text \<open>Four parsed posts, two of them on the same day.\<close>

theorem chrono_order_and_membership_witness:
  "\<exists>chrono catalog.
     generate_indexes (parsed_posts
       [(''a.txt'', ''[Title]\<newline>A\<newline>[Date]\<newline>01/05/2024\<newline>[Category]\<newline>news''),
        (''b.txt'', ''[Title]\<newline>B\<newline>[Date]\<newline>12/31/2023\<newline>[Category]\<newline>notes''),
        (''c.txt'', ''[Title]\<newline>C\<newline>[Date]\<newline>03/01/2024\<newline>[Category]\<newline>news''),
        (''d.txt'', ''[Title]\<newline>D\<newline>[Date]\<newline>01/05/2024\<newline>[Category]\<newline>notes'')]) =
       Inr (chrono, catalog) \<and>
     map ce_date chrono = [''03/01/2024'', ''01/05/2024'', ''12/31/2023''] \<and>
     sorted_wrt newer (map ce_date chrono) \<and>
     size (mset (map (map Some) (chrono_views chrono))) = 4 \<and>
     mset (map (map Some) (chrono_views chrono)) = mset (map (map Some) (catalog_views catalog))"
proof -
  define posts where "posts = parsed_posts
       [(''a.txt'', ''[Title]\<newline>A\<newline>[Date]\<newline>01/05/2024\<newline>[Category]\<newline>news''),
        (''b.txt'', ''[Title]\<newline>B\<newline>[Date]\<newline>12/31/2023\<newline>[Category]\<newline>notes''),
        (''c.txt'', ''[Title]\<newline>C\<newline>[Date]\<newline>03/01/2024\<newline>[Category]\<newline>news''),
        (''d.txt'', ''[Title]\<newline>D\<newline>[Date]\<newline>01/05/2024\<newline>[Category]\<newline>notes'')]"
  have "list_all valid_post posts" unfolding posts_def by code_simp
  then have v: "\<forall>p \<in> set posts. valid_post p" by (simp only: list_all_iff)
  have "list_all (\<lambda>p. list_all (\<lambda>q. date_key p = date_key q \<longrightarrow> p ''date'' = q ''date'') posts) posts"
    unfolding posts_def by code_simp
  then have i: "\<forall>p \<in> set posts. \<forall>q \<in> set posts. date_key p = date_key q \<longrightarrow> p ''date'' = q ''date''"
    by (simp only: list_all_iff)
  have n: "length posts = 4" unfolding posts_def by code_simp
  from chrono_order_and_membership [OF v] i obtain chrono catalog
    where g: "generate_indexes posts = Inr (chrono, catalog)"
      and s: "sorted_wrt newer (map ce_date chrono)"
      and m1: "mset (map (map Some) (chrono_views chrono)) = mset (map post_view posts)"
      and m2: "mset (map (map Some) (catalog_views catalog)) = mset (map post_view posts)"
    by blast
  have "(case generate_indexes posts of Inl e \<Rightarrow> [] | Inr (chrono, catalog) \<Rightarrow> map ce_date chrono) =
        [''03/01/2024'', ''01/05/2024'', ''12/31/2023'']"
    unfolding posts_def by code_simp
  with g have d: "map ce_date chrono = [''03/01/2024'', ''01/05/2024'', ''12/31/2023'']" by simp
  from m1 n have z: "size (mset (map (map Some) (chrono_views chrono))) = 4" by simp
  from m1 m2 have e: "mset (map (map Some) (chrono_views chrono)) =
      mset (map (map Some) (catalog_views catalog))" by simp
  from g s d z e have "\<exists>chrono catalog. generate_indexes posts = Inr (chrono, catalog) \<and>
     map ce_date chrono = [''03/01/2024'', ''01/05/2024'', ''12/31/2023''] \<and>
     sorted_wrt newer (map ce_date chrono) \<and>
     size (mset (map (map Some) (chrono_views chrono))) = 4 \<and>
     mset (map (map Some) (chrono_views chrono)) = mset (map (map Some) (catalog_views catalog))"
    by - (rule exI [of _ chrono], rule exI [of _ catalog], intro conjI, assumption+)
  then show ?thesis unfolding posts_def .
qed

text \<open>The claim as stated fails: two valid posts with the date strings
  \<open>01/05/2024\<close> and \<open>1/5/2024\<close> give two entries for one calendar date.\<close>

theorem same_calendar_date_counterexample:
  "(case main_indexes
          [(''a.txt'', ''[Title]\<newline>A\<newline>[Date]\<newline>01/05/2024\<newline>[Category]\<newline>news''),
           (''b.txt'', ''[Title]\<newline>B\<newline>[Date]\<newline>1/5/2024\<newline>[Category]\<newline>news'')] of
      Some (Inr (chrono, catalog)) \<Rightarrow> map ce_date chrono
    | _ \<Rightarrow> []) = [''01/05/2024'', ''1/5/2024''] \<and>
   strptime ''01/05/2024'' = Inr (2024, 1, 5) \<and>
   strptime ''1/5/2024'' = Inr (2024, 1, 5) \<and>
   list_all valid_post (parsed_posts
          [(''a.txt'', ''[Title]\<newline>A\<newline>[Date]\<newline>01/05/2024\<newline>[Category]\<newline>news''),
           (''b.txt'', ''[Title]\<newline>B\<newline>[Date]\<newline>1/5/2024\<newline>[Category]\<newline>news'')])"
  by code_simp

subsection \<open>Stability\<close>

lemma post_date_has_entry:
  assumes "\<forall>p \<in> set ps. valid_post p" and "p \<in> set ps"
  shows "\<exists>ss. (the_field p ''date'', ss) \<in> set (group_all (map chrono_pair (sorted_reverse the_key ps)) [])"
proof -
  let ?sp = "sorted_reverse the_key ps"
  from assms(2) have "chrono_pair p \<in> set (map chrono_pair ?sp)"
    by (simp add: set_sorted_reverse)
  then have "fst (chrono_pair p) \<in> fst ` set (map chrono_pair ?sp)" by (rule imageI)
  then have "the_field p ''date'' \<in> fst ` set (group_all (map chrono_pair ?sp) [])"
    by (simp add: keys_group_all chrono_pair_def)
  then show ?thesis by force
qed

text \<open>
  Claim C6. For every sequence of valid posts the index builder returns the
  chronological index. Every input post finds an entry with its date string, every
  entry has the date string of some input post, no two entries have the same date
  string, and the entries are in descending order of calendar date. The posts of each
  entry are exactly the input posts with the entry's date string, in their input order:
  the sort by date is stable. In particular the input dates \<open>01/05/2024\<close>, \<open>03/01/2024\<close>,
  \<open>01/05/2024\<close> give the entries \<open>03/01/2024\<close> and \<open>01/05/2024\<close> in that order,
  the second with the first and the third post in that order.
\<close>

theorem same_date_posts_keep_input_order:
  assumes "\<forall>p \<in> set posts. valid_post p"
  shows "\<exists>chrono catalog. generate_indexes posts = Inr (chrono, catalog) \<and>
           (\<forall>p \<in> set posts. \<exists>e \<in> set chrono. p ''date'' = Some (ce_date e)) \<and>
           (\<forall>e \<in> set chrono. \<exists>p \<in> set posts. p ''date'' = Some (ce_date e)) \<and>
           distinct (map ce_date chrono) \<and>
           sorted_wrt newer_or_same (map ce_date chrono) \<and>
           (\<forall>e \<in> set chrono.
              map Inr (ce_posts e) =
              map chrono_summary_of (filter (\<lambda>p. p ''date'' = Some (ce_date e)) posts))"
proof -
  let ?sp = "sorted_reverse the_key posts"
  let ?m = "group_all (map chrono_pair ?sp) []"
  let ?chrono = "map (\<lambda>(date, posts). \<lparr>ce_date = date, ce_posts = posts\<rparr>) ?m"
  let ?catalog = "group_all (map catalog_pair ?sp) []"
  have g: "generate_indexes posts = Inr (?chrono, ?catalog)"
    using assms by (rule generate_indexes_valid)
  have order: "map Inr (ce_posts e) =
        map chrono_summary_of (filter (\<lambda>p. p ''date'' = Some (ce_date e)) posts)"
    if "e \<in> set ?chrono" for e
  proof -
    from that obtain d ss where "(d, ss) \<in> set ?m" and e: "e = \<lparr>ce_date = d, ce_posts = ss\<rparr>"
      by auto
    from entry_posts_input_order [OF assms this(1)] e show ?thesis by simp
  qed
  have present: "\<exists>e \<in> set ?chrono. p ''date'' = Some (ce_date e)" if p: "p \<in> set posts" for p
  proof -
    from post_date_has_entry [OF assms p] obtain ss
      where m: "(the_field p ''date'', ss) \<in> set ?m" by blast
    let ?e = "\<lparr>ce_date = the_field p ''date'', ce_posts = ss\<rparr>"
    from m have "?e \<in> set ?chrono" by force
    moreover from assms p have "p ''date'' = Some (ce_date ?e)"
      using valid_post_getitem(2) [of p "''date''"] by simp
    ultimately show ?thesis by blast
  qed
  have used: "\<exists>p \<in> set posts. p ''date'' = Some (ce_date e)" if "e \<in> set ?chrono" for e
  proof -
    from that obtain d ss where "(d, ss) \<in> set ?m" and e: "e = \<lparr>ce_date = d, ce_posts = ss\<rparr>"
      by auto
    then have "d \<in> fst ` set ?m" by force
    then have "d \<in> fst ` set (map chrono_pair ?sp)" by (simp add: keys_group_all)
    then obtain p where p: "p \<in> set posts" "the_field p ''date'' = d"
      by (auto simp: set_sorted_reverse chrono_pair_def)
    with assms have "p ''date'' = Some d" using valid_post_getitem(2) [of p "''date''"] by simp
    with p(1) e show ?thesis by auto
  qed
  have "distinct (map fst ?m)" by (rule distinct_group_all) simp
  then have d: "distinct (map ce_date ?chrono)" by (simp only: ce_date_of_group)
  have "sorted_wrt newer_or_same (map fst ?m)" using assms by (rule chrono_keys_descending)
  then have s: "sorted_wrt newer_or_same (map ce_date ?chrono)" by (simp only: ce_date_of_group)
  from g present used d s order show ?thesis by blast
qed

text \<open>The three dates of the example, from three parsed files.\<close>

theorem same_date_posts_keep_input_order_witness:
  "\<exists>chrono catalog.
     generate_indexes (parsed_posts
       [(''a.txt'', ''[Title]\<newline>A\<newline>[Date]\<newline>01/05/2024\<newline>[Category]\<newline>news\<newline>[Content]\<newline>first''),
        (''b.txt'', ''[Title]\<newline>B\<newline>[Date]\<newline>03/01/2024\<newline>[Category]\<newline>notes\<newline>[Content]\<newline>second''),
        (''c.txt'', ''[Title]\<newline>C\<newline>[Date]\<newline>01/05/2024\<newline>[Category]\<newline>news\<newline>[Content]\<newline>third'')]) =
       Inr (chrono, catalog) \<and>
     distinct (map ce_date chrono) \<and>
     map (\<lambda>e. (ce_date e, map ch_path (ce_posts e))) chrono =
       [(''03/01/2024'', [''posts/b.txt'']), (''01/05/2024'', [''posts/a.txt'', ''posts/c.txt''])]"
proof -
  define posts where "posts = parsed_posts
       [(''a.txt'', ''[Title]\<newline>A\<newline>[Date]\<newline>01/05/2024\<newline>[Category]\<newline>news\<newline>[Content]\<newline>first''),
        (''b.txt'', ''[Title]\<newline>B\<newline>[Date]\<newline>03/01/2024\<newline>[Category]\<newline>notes\<newline>[Content]\<newline>second''),
        (''c.txt'', ''[Title]\<newline>C\<newline>[Date]\<newline>01/05/2024\<newline>[Category]\<newline>news\<newline>[Content]\<newline>third'')]"
  have "list_all valid_post posts" unfolding posts_def by code_simp
  then have v: "\<forall>p \<in> set posts. valid_post p" by (simp only: list_all_iff)
  from same_date_posts_keep_input_order [OF v] obtain chrono catalog
    where g: "generate_indexes posts = Inr (chrono, catalog)"
      and d: "distinct (map ce_date chrono)" by blast
  have "(case generate_indexes posts of
           Inl e \<Rightarrow> []
         | Inr (chrono, catalog) \<Rightarrow> map (\<lambda>e. (ce_date e, map ch_path (ce_posts e))) chrono) =
        [(''03/01/2024'', [''posts/b.txt'']), (''01/05/2024'', [''posts/a.txt'', ''posts/c.txt''])]"
    unfolding posts_def by code_simp
  with g have m: "map (\<lambda>e. (ce_date e, map ch_path (ce_posts e))) chrono =
       [(''03/01/2024'', [''posts/b.txt'']), (''01/05/2024'', [''posts/a.txt'', ''posts/c.txt''])]"
    by simp
  from g d m have "\<exists>chrono catalog. generate_indexes posts = Inr (chrono, catalog) \<and>
     distinct (map ce_date chrono) \<and>
     map (\<lambda>e. (ce_date e, map ch_path (ce_posts e))) chrono =
       [(''03/01/2024'', [''posts/b.txt'']), (''01/05/2024'', [''posts/a.txt'', ''posts/c.txt''])]"
    by - (rule exI [of _ chrono], rule exI [of _ catalog], intro conjI, assumption+)
  then show ?thesis unfolding posts_def .
qed


end
